theory Spec2Isabelle
  imports Complex_Main "HOL-Library.Log_Nat"
begin

section \<open>Values of the JavaScript runtime\<close>

text \<open>
  A JavaScript \<open>Number\<close> is an IEEE 754 double. Every finite double is a rational, and the
  model takes the numbers from the rationals; \<open>is_double\<close> says which of them are doubles.
  An arithmetic operation of the runtime computes the exact result and rounds it to the
  nearest double, to the one with the even significand on a tie: \<open>fl\<close> is that rounding.
  Comparisons, \<open>Math.floor\<close> and \<open>toFixed\<close> are exact functions of the value of a double.
  \<open>NaN\<close>, the infinities (also as the result of an overflow) and the sign of zero are not
  modelled.

  A thrown exception is a value of type \<open>error\<close>: \<open>TypeError\<close> is what the runtime
  throws when a property of \<open>undefined\<close> is read, \<open>Error msg\<close> is the program's own
  \<open>throw new Error(msg)\<close>, and \<open>Rejected cause\<close> is a rejected promise of a remote
  or file-system call.
\<close>

type_synonym number = rat

datatype error = TypeError | Error string | Rejected string

text \<open>\<open>xs[i]\<close> on a JavaScript array: \<open>undefined\<close> (here \<open>None\<close>) outside \<open>0..length-1\<close>.\<close>

definition array_at :: "'a list \<Rightarrow> int \<Rightarrow> 'a option" where
  "array_at xs i = (if 0 \<le> i \<and> i < int (length xs) then Some (xs ! nat i) else None)"

text \<open>\<open>x.f\<close> where \<open>x\<close> may be \<open>undefined\<close>: reading a property of \<open>undefined\<close> throws.\<close>

definition read_prop :: "'a option \<Rightarrow> ('a \<Rightarrow> 'b) \<Rightarrow> error + 'b" where
  "read_prop x f = (case x of None \<Rightarrow> Inl TypeError | Some v \<Rightarrow> Inr (f v))"

subsection \<open>Double arithmetic\<close>

text \<open>The integer nearest to \<open>y\<close>, the even one of the two when \<open>y\<close> lies halfway.\<close>

definition round_half_even :: "rat \<Rightarrow> int" where
  "round_half_even y =
     (let f = \<lfloor>y\<rfloor>; r = y - of_int f
      in if r < 1 / 2 then f else if 1 / 2 < r then f + 1 else if even f then f else f + 1)"

text \<open>
  The doubles are the multiples of \<open>2^-1074\<close> whose significand has at most 53 bits. In
  units of \<open>2^-1074\<close>: a number whose integer part has \<open>b\<close> bits is rounded to a multiple of
  \<open>2^(b - 53)\<close>, and to an integer when \<open>b\<close> is at most 53 (the subnormal numbers and the
  first binade of the normal ones).
\<close>

definition round_scaled :: "rat \<Rightarrow> rat" where
  "round_scaled a =
     (let k = nat (bitlen \<lfloor>a\<rfloor>) - 53
      in of_int (round_half_even (a / 2 ^ k)) * 2 ^ k)"

definition subnormal_bits :: nat where
  "subnormal_bits = 1074"

definition fl :: "number \<Rightarrow> number" where
  "fl x = sgn x * (round_scaled (\<bar>x\<bar> * 2 ^ subnormal_bits) / 2 ^ subnormal_bits)"

definition is_double :: "number \<Rightarrow> bool" where
  "is_double x \<longleftrightarrow> fl x = x"

text \<open>The operators \<open>-\<close>, \<open>*\<close> and \<open>/\<close> of the runtime.\<close>

definition js_minus :: "number \<Rightarrow> number \<Rightarrow> number" where
  "js_minus a b = fl (a - b)"

definition js_times :: "number \<Rightarrow> number \<Rightarrow> number" where
  "js_times a b = fl (a * b)"

definition js_divide :: "number \<Rightarrow> number \<Rightarrow> number" where
  "js_divide a b = fl (a / b)"

subsection \<open>Numbers as strings\<close>

definition digit_char :: "nat \<Rightarrow> char" where
  "digit_char d = ''0123456789'' ! d"

function string_of_nat :: "nat \<Rightarrow> string" where
  "string_of_nat n =
     (if n < 10 then [digit_char n] else string_of_nat (n div 10) @ [digit_char (n mod 10)])"
  by pat_completeness auto
termination
  by (relation "measure id") auto

declare string_of_nat.simps [simp del]

text \<open>
  \<open>Number::toString\<close> writes the shortest decimal \<open>s * 10^(n - k)\<close>, with \<open>k\<close> digits \<open>s\<close>,
  that denotes the number, and the one nearest to it among those of that length (the even
  \<open>s\<close> on a tie). For an integer \<open>v\<close> of \<open>D\<close> digits the search goes through \<open>k = 1, 2, ...\<close>;
  the decimals of \<open>k\<close> digits next to \<open>v\<close> are \<open>lo * 10^(D - k)\<close> and \<open>(lo + 1) * 10^(D - k)\<close>.
  Seventeen digits denote every double.
\<close>

definition reads_as :: "nat \<Rightarrow> nat \<Rightarrow> bool" where
  "reads_as w v \<longleftrightarrow> fl (of_nat w) = of_nat v"

fun shortest_decimal :: "nat \<Rightarrow> nat \<Rightarrow> nat \<Rightarrow> nat \<Rightarrow> nat \<times> nat" where
  "shortest_decimal 0 v D k = (v, D)"
| "shortest_decimal (Suc fuel) v D k =
     (let scale = 10 ^ (D - k);
          lo = v div scale;
          hi = lo + 1;
          lo_ok = reads_as (lo * scale) v;
          hi_ok = reads_as (hi * scale) v;
          below = (lo, D);
          above = (if hi = 10 ^ k then (1, D + 1) else (hi, D))
      in if lo_ok \<and> hi_ok then
           (if v - lo * scale < hi * scale - v then below
            else if hi * scale - v < v - lo * scale then above
            else if even lo then below else above)
         else if lo_ok then below
         else if hi_ok then above
         else shortest_decimal fuel v D (Suc k))"

text \<open>
  An integer from \<open>2^53\<close> on: the digits of \<open>s\<close> and \<open>n - k\<close> zeros up to \<open>n = 21\<close>, the
  exponent notation beyond.
\<close>

definition string_of_large :: "nat \<Rightarrow> string" where
  "string_of_large v =
     (case shortest_decimal 17 v (length (string_of_nat v)) 1 of (s, n) \<Rightarrow>
        let ds = string_of_nat s; k = length ds
        in if n \<le> 21 then ds @ replicate (n - k) CHR ''0''
           else (if k = 1 then ds else take 1 ds @ ''.'' @ drop 1 ds)
                @ ''e+'' @ string_of_nat (n - 1))"

text \<open>
  \<open>String(i)\<close> for an integral \<open>Number\<close>. Below \<open>2^53\<close> the shortest decimal is the integer
  itself.
\<close>

definition string_of_magnitude :: "nat \<Rightarrow> string" where
  "string_of_magnitude v = (if int v < 2 ^ 53 then string_of_nat v else string_of_large v)"

definition string_of_int :: "int \<Rightarrow> string" where
  "string_of_int i =
     (if i < 0 then ''-'' @ string_of_magnitude (nat (- i)) else string_of_magnitude (nat i))"

text \<open>
  \<open>x.toFixed(3)\<close> (ECMAScript \<open>Number.prototype.toFixed\<close>): the sign; then, below
  \<open>10^21\<close>, the integer \<open>n\<close> with \<open>n / 1000\<close> nearest to \<open>|x|\<close> (the larger one on a tie),
  written with at least four digits and a point before the last three; from \<open>10^21\<close> on,
  where every double is an integer, \<open>String(|x|)\<close>.
\<close>

definition toFixed3 :: "number \<Rightarrow> string" where
  "toFixed3 x =
     (let s = (if x < 0 then ''-'' else []);
          y = (if x < 0 then - x else x)
      in if 10 ^ 21 \<le> y then s @ string_of_magnitude (nat \<lfloor>y\<rfloor>)
         else
           let n = nat \<lfloor>y * 1000 + 1 / 2\<rfloor>;
               m = string_of_nat n;
               m' = (if length m \<le> 3 then replicate (4 - length m) CHR ''0'' @ m else m);
               k = length m'
           in s @ take (k - 3) m' @ ''.'' @ drop (k - 3) m')"

section \<open>Time Formatter\<close>

text \<open>
  \<open>padString(str, length)\<close>: \<open>length\<close> zeros are put before \<open>str\<close> and
  \<open>slice(-length)\<close> keeps the last \<open>length\<close> characters (\<open>slice(-0)\<close> keeps everything).
\<close>

definition padString :: "string \<Rightarrow> nat \<Rightarrow> string" where
  "padString str len =
     (let s = replicate len CHR ''0'' @ str
      in if len = 0 then s else drop (length s - len) s)"

definition secondsToMinutes :: "number \<Rightarrow> string" where
  "secondsToMinutes str =
     (let total = str;
          hours = \<lfloor>js_divide total 3600\<rfloor>;
          total = js_minus total (js_times (of_int hours) 3600);
          minutes = \<lfloor>js_divide total 60\<rfloor>;
          seconds = toFixed3 (js_minus total (js_times (of_int minutes) 60));
          hoursStr = padString (string_of_int hours) 2;
          minutesStr = padString (string_of_int minutes) 2;
          secondsStr = padString seconds 6
      in hoursStr @ '':'' @ minutesStr @ '':'' @ secondsStr)"

section \<open>Transcript items\<close>

record IAlternative =
  confidence :: string
  content :: string

datatype item_type = pronunciation | punctuation

record IItem =
  start_time :: number
  end_time :: number
  alternatives :: "IAlternative list"
  type :: item_type

section \<open>Segmenter\<close>

text \<open>
  One caption as \<open>convertJsonToSrt\<close> appends it to its output: the number, the two times
  (before formatting) and the text. The list \<open>cues\<close> of the state below is a history
  variable: it records each group of appends to \<open>convertedOutput\<close> as a value, and the
  program never reads it.
\<close>

record cue =
  cue_index :: nat
  cue_start :: number
  cue_end :: number
  cue_text :: string

record seg_state =
  convertedOutput :: string
  subtitleIndex :: nat
  current_start :: number
  nextline :: string
  cues :: "cue list"

text \<open>The three appends of a caption closed inside the loop, and those of the last one.\<close>

definition render_cue :: "cue \<Rightarrow> string" where
  "render_cue c =
     string_of_nat (cue_index c) @ [CHR 0x0A]
     @ secondsToMinutes (cue_start c) @ '' --> '' @ secondsToMinutes (cue_end c) @ [CHR 0x0A]
     @ cue_text c @ [CHR 0x0A, CHR 0x0A]"

definition render_last_cue :: "cue \<Rightarrow> string" where
  "render_last_cue c =
     string_of_nat (cue_index c) @ [CHR 0x0A]
     @ secondsToMinutes (cue_start c) @ '' --> '' @ secondsToMinutes (cue_end c) @ [CHR 0x0A]
     @ cue_text c"

text \<open>\<open>item.alternatives[0].content\<close>.\<close>

definition first_content :: "IItem \<Rightarrow> error + string" where
  "first_content item = read_prop (array_at (alternatives item) 0) content"

text \<open>
  The body of the \<open>forEach\<close> callback at \<open>index\<close>. \<open>nextline.slice(0, -1)\<close> is
  \<open>butlast\<close>; \<open>if (nextItem)\<close> holds exactly when \<open>index + 1\<close> is in range.
\<close>

definition step :: "IItem list \<Rightarrow> nat \<Rightarrow> seg_state \<Rightarrow> error + seg_state" where
  "step items index s =
     (let item = items ! index in
      if type item = punctuation then
        (case first_content item of Inl e \<Rightarrow> Inl e | Inr c \<Rightarrow>
         let nl = butlast (nextline s) @ c in
         (case read_prop (array_at items (int index - 1)) end_time of Inl e \<Rightarrow> Inl e | Inr prev_end \<Rightarrow>
          let q = \<lparr>cue_index = subtitleIndex s, cue_start = current_start s,
                    cue_end = prev_end, cue_text = nl\<rparr> in
          Inr \<lparr>convertedOutput = convertedOutput s @ render_cue q,
               subtitleIndex = subtitleIndex s + 1,
               current_start = (case array_at items (int index + 1) of
                                  Some nextItem \<Rightarrow> start_time nextItem
                                | None \<Rightarrow> current_start s),
               nextline = [],
               cues = cues s @ [q]\<rparr>))
      else if js_minus (end_time item) (current_start s) > 5 then
        (case read_prop (array_at items (int index - 1)) end_time of Inl e \<Rightarrow> Inl e | Inr prev_end \<Rightarrow>
         let q = \<lparr>cue_index = subtitleIndex s, cue_start = current_start s,
                   cue_end = prev_end, cue_text = nextline s\<rparr> in
         (case first_content item of Inl e \<Rightarrow> Inl e | Inr c \<Rightarrow>
          Inr \<lparr>convertedOutput = convertedOutput s @ render_cue q,
               subtitleIndex = subtitleIndex s + 1,
               current_start = start_time item,
               nextline = c @ '' '',
               cues = cues s @ [q]\<rparr>))
      else
        (case first_content item of Inl e \<Rightarrow> Inl e | Inr c \<Rightarrow>
         Inr (s\<lparr>nextline := nextline s @ c @ '' ''\<rparr>)))"

text \<open>\<open>items.forEach\<close> over the given indices; a throw in the callback ends the pass.\<close>

fun forEach :: "IItem list \<Rightarrow> nat list \<Rightarrow> seg_state \<Rightarrow> error + seg_state" where
  "forEach items [] s = Inr s"
| "forEach items (i # is) s =
     (case step items i s of Inl e \<Rightarrow> Inl e | Inr s' \<Rightarrow> forEach items is s')"

text \<open>The state after the whole pass over \<open>json.results.items\<close>.\<close>

definition pass :: "IItem list \<Rightarrow> error + seg_state" where
  "pass items =
     (case read_prop (array_at items 0) start_time of Inl e \<Rightarrow> Inl e | Inr st \<Rightarrow>
      forEach items [0..<length items]
        \<lparr>convertedOutput = [], subtitleIndex = 1, current_start = st, nextline = [], cues = []\<rparr>)"

text \<open>The statements after the loop: the end time of the last caption, and the leftover words.\<close>

definition finish :: "IItem list \<Rightarrow> seg_state \<Rightarrow> error + seg_state" where
  "finish items s =
     (let n = int (length items) in
      case read_prop (array_at items (n - 1)) type of Inl e \<Rightarrow> Inl e | Inr ty \<Rightarrow>
      (case (if ty \<noteq> punctuation then read_prop (array_at items (n - 1)) end_time
             else read_prop (array_at items (n - 2)) end_time)
       of Inl e \<Rightarrow> Inl e | Inr last_end \<Rightarrow>
       if nextline s \<noteq> [] then
         let q = \<lparr>cue_index = subtitleIndex s, cue_start = current_start s,
                   cue_end = last_end, cue_text = nextline s\<rparr> in
         Inr (s\<lparr>convertedOutput := convertedOutput s @ render_last_cue q,
                subtitleIndex := subtitleIndex s + 1,
                cues := cues s @ [q]\<rparr>)
       else Inr s))"

definition segment :: "IItem list \<Rightarrow> error + seg_state" where
  "segment items = (case pass items of Inl e \<Rightarrow> Inl e | Inr s \<Rightarrow> finish items s)"

text \<open>\<open>convertJsonToSrt(json)\<close>, as a function of \<open>json.results.items\<close>.\<close>

definition convertJsonToSrt :: "IItem list \<Rightarrow> error + string" where
  "convertJsonToSrt items = map_sum id convertedOutput (segment items)"

text \<open>A spoken word and a punctuation mark with one alternative, for the examples.\<close>

definition word :: "string \<Rightarrow> number \<Rightarrow> number \<Rightarrow> IItem" where
  "word w s e = \<lparr>start_time = s, end_time = e,
                 alternatives = [\<lparr>confidence = ''1.0'', content = w\<rparr>], type = pronunciation\<rparr>"

definition punct :: "string \<Rightarrow> number \<Rightarrow> number \<Rightarrow> IItem" where
  "punct w s e = \<lparr>start_time = s, end_time = e,
                  alternatives = [\<lparr>confidence = ''0.0'', content = w\<rparr>], type = punctuation\<rparr>"

section \<open>Predicates on the state of the pass\<close>

text \<open>The state before the first item, given the start time of that item.\<close>

definition init_state :: "number \<Rightarrow> seg_state" where
  "init_state st = \<lparr>convertedOutput = [], subtitleIndex = 1, current_start = st, nextline = [], cues = []\<rparr>"



section \<open>Fixed-width decimal fields\<close>

text \<open>The decimal digits of a number below 100, and of one below 1000, at full width.\<close>

definition two_digits :: "nat \<Rightarrow> string" where
  "two_digits k = [digit_char (k div 10), digit_char (k mod 10)]"

definition three_digits :: "nat \<Rightarrow> string" where
  "three_digits k = [digit_char (k div 100), digit_char (k div 10 mod 10), digit_char (k mod 10)]"

text \<open>
  The whole hours, the whole minutes of the rest, and the thousandths of a second that
  \<open>toFixed(3)\<close> rounds the remaining seconds to.
\<close>

definition hours_of :: "number \<Rightarrow> nat" where
  "hours_of x = nat \<lfloor>x / 3600\<rfloor>"

definition minutes_of :: "number \<Rightarrow> nat" where
  "minutes_of x = nat \<lfloor>(x - of_int \<lfloor>x / 3600\<rfloor> * 3600) / 60\<rfloor>"

definition millis_of :: "number \<Rightarrow> nat" where
  "millis_of x =
     (let r = x - of_int \<lfloor>x / 3600\<rfloor> * 3600
      in nat \<lfloor>(r - of_int \<lfloor>r / 60\<rfloor> * 60) * 1000 + 1 / 2\<rfloor>)"

section \<open>The kinds of failure of the specification\<close>

text \<open>
  The specification names five kinds of failure. The program has three kinds of exception:
  its only \<open>throw new Error\<close> reports the missing input file, a rejected promise is a
  failed call of a service, and a \<open>TypeError\<close> of the runtime is none of the five.
\<close>

datatype error_kind =
  FileNotFound | RemoteOperationFailed | JobFailed string | EmptyTranscript | MalformedTranscript

definition spec_kind :: "error \<Rightarrow> error_kind option" where
  "spec_kind e =
     (case e of TypeError \<Rightarrow> None
      | Error msg \<Rightarrow> Some FileNotFound
      | Rejected cause \<Rightarrow> Some RemoteOperationFailed)"

definition failure_kind :: "error + 'a \<Rightarrow> error_kind option" where
  "failure_kind r = (case r of Inl e \<Rightarrow> spec_kind e | Inr _ \<Rightarrow> None)"

section \<open>Orchestrator\<close>

subsection \<open>The services and the file system\<close>

datatype job_status = QUEUED | IN_PROGRESS | FAILED | COMPLETED

record transcript =
  TranscriptFileUri :: "string option"

record transcription_job =
  TranscriptionJobStatus :: job_status
  Transcript :: "transcript option"
  FailureReason :: "string option"

text \<open>The parameters of a \<open>startTranscriptionJob\<close> request (\<open>Media.MediaFileUri\<close> flattened).\<close>

record job_params =
  TranscriptionJobName :: string
  LanguageCode :: string
  MediaFormat :: string
  MediaFileUri :: string

record TranscribeParams =
  bucketName :: string
  inputFile :: string
  outputFile :: string
  deleteFile :: bool

text \<open>
  Every call that leaves the program, in the order of the run. \<open>ExistsSync\<close>,
  \<open>CreateReadStream\<close> and \<open>WriteFile\<close> are calls of the local file system; the others
  are requests over the network.
\<close>

datatype event =
    ListBuckets
  | CreateBucket string
  | ExistsSync string
  | CreateReadStream string
  | Upload string string
  | StartTranscriptionJob job_params
  | GetTranscriptionJob string
  | HttpGet "string option"
  | WriteFile string string
  | DeleteObject string string

fun is_network :: "event \<Rightarrow> bool" where
  "is_network (ExistsSync _) = False"
| "is_network (CreateReadStream _) = False"
| "is_network (WriteFile _ _) = False"
| "is_network _ = True"

text \<open>
  What the world answers. A call of the AWS SDK, of \<open>axios\<close> or of \<open>writeFile\<close> resolves
  or rejects; \<open>getTranscriptionJob\<close> is asked repeatedly, so its answer depends on the
  number of the call. The region of the \<open>Transcriber\<close> object, the result of \<open>uuid()\<close>
  and the library function \<open>basename\<close> are parameters too. The fetched document is taken
  to have the field \<open>results.items\<close>.

  Writes to the standard output (\<open>log\<close>, \<open>print\<close>), the two \<open>sleep\<close> calls and the flag
  \<open>bucketCreated\<close>, which is written and never read, are left out: they do not change the
  control flow or the calls.
\<close>

record world =
  region :: string
  uuid :: string
  basename :: "string \<Rightarrow> string"
  s3_listBuckets :: "error + string option list option"
  s3_createBucket :: "error option"
  fs_existsSync :: "string \<Rightarrow> bool"
  fs_stream_error :: "error option"
  s3_upload :: "error option"
  startTranscriptionJob :: "error option"
  getTranscriptionJob_response :: "nat \<Rightarrow> error + transcription_job option"
  axios :: "string option \<Rightarrow> error + IItem list"
  fs_writeFile :: "error option"
  s3_deleteObject :: "error option"

text \<open>A computation: the calls it made, and its exception or its value.\<close>

type_synonym 'a run = "event list \<times> (error + 'a)"

definition and_then :: "'a run \<Rightarrow> ('a \<Rightarrow> 'b run) \<Rightarrow> 'b run" where
  "and_then m f =
     (case m of
        (t, Inl e) \<Rightarrow> (t, Inl e)
      | (t, Inr a) \<Rightarrow> (case f a of (t', r) \<Rightarrow> (t @ t', r)))"

text \<open>A call whose promise resolves to no value, or rejects.\<close>

definition request :: "event \<Rightarrow> error option \<Rightarrow> unit run" where
  "request ev answer = ([ev], case answer of None \<Rightarrow> Inr () | Some e \<Rightarrow> Inl e)"

subsection \<open>The methods of \<open>Transcriber\<close>\<close>

definition bucketExists :: "world \<Rightarrow> string \<Rightarrow> bool run" where
  "bucketExists w bucket =
     ([ListBuckets],
      case s3_listBuckets w of
        Inl e \<Rightarrow> Inl e
      | Inr Buckets \<Rightarrow>
          Inr (Some bucket \<in> set (case Buckets of Some bs \<Rightarrow> bs | None \<Rightarrow> [])))"

definition createBucket :: "world \<Rightarrow> string \<Rightarrow> unit run" where
  "createBucket w bucket = request (CreateBucket bucket) (s3_createBucket w)"

definition uploadFile :: "world \<Rightarrow> string \<Rightarrow> string \<Rightarrow> string \<Rightarrow> unit run" where
  "uploadFile w bucket fileName objectName =
     (if \<not> fs_existsSync w fileName then
        ([ExistsSync fileName], Inl (Error (fileName @ '' does not exist'')))
      else
        and_then ([ExistsSync fileName, CreateReadStream fileName], Inr ()) (\<lambda>_.
        and_then (request (Upload bucket objectName) (s3_upload w)) (\<lambda>_.
          ([], case fs_stream_error w of Some e \<Rightarrow> Inl e | None \<Rightarrow> Inr ()))))"

definition deleteFile :: "world \<Rightarrow> string \<Rightarrow> string \<Rightarrow> unit run" where
  "deleteFile w bucket objectName = request (DeleteObject bucket objectName) (s3_deleteObject w)"

definition jobParams :: "string \<Rightarrow> string \<Rightarrow> job_params" where
  "jobParams jobName uri =
     \<lparr>TranscriptionJobName = jobName, LanguageCode = ''en-US'', MediaFormat = ''mp4'',
      MediaFileUri = uri\<rparr>"

definition startTranscription :: "world \<Rightarrow> string \<Rightarrow> string \<Rightarrow> unit run" where
  "startTranscription w jobName uri =
     request (StartTranscriptionJob (jobParams jobName uri)) (startTranscriptionJob w)"

text \<open>The \<open>n\<close>-th call of \<open>getTranscriptionJob\<close>; the job of the response may be undefined.\<close>

definition getTranscriptionJob :: "world \<Rightarrow> string \<Rightarrow> nat \<Rightarrow> transcription_job option run" where
  "getTranscriptionJob w jobName n = ([GetTranscriptionJob jobName], getTranscriptionJob_response w n)"

text \<open>
  The loop \<open>while (job.TranscriptionJobStatus === 'IN_PROGRESS')\<close>, entered with the
  answer to call \<open>n - 1\<close> and the calls made so far. It has no bound: the result is
  \<open>None\<close> when the job stays in progress forever.
\<close>

partial_function (option) poll ::
  "world \<Rightarrow> string \<Rightarrow> nat \<Rightarrow> event list \<Rightarrow> transcription_job option
     \<Rightarrow> (transcription_job run) option" where
  "poll w jobName n tr job =
     (case job of
        None \<Rightarrow> Some (tr, Inl TypeError)
      | Some j \<Rightarrow>
          if TranscriptionJobStatus j = IN_PROGRESS then
            (case getTranscriptionJob w jobName n of
               (t, Inl e) \<Rightarrow> Some (tr @ t, Inl e)
             | (t, Inr job') \<Rightarrow> poll w jobName (Suc n) (tr @ t) job')
          else Some (tr, Inr j))"

declare poll.simps [code]

text \<open>The statements of \<open>transcribe\<close> after the loop, for the job the loop ended with.\<close>

definition after_poll :: "world \<Rightarrow> TranscribeParams \<Rightarrow> string \<Rightarrow> transcription_job \<Rightarrow> unit run" where
  "after_poll w params mediaFile job =
     and_then ([], read_prop (Transcript job) TranscriptFileUri) (\<lambda>url.
     and_then ([HttpGet url], axios w url) (\<lambda>subtitles.
     and_then ([], convertJsonToSrt subtitles) (\<lambda>srt.
     and_then (request (WriteFile (outputFile params) srt) (fs_writeFile w)) (\<lambda>_.
       if TranscribeParams.deleteFile params then deleteFile w (bucketName params) mediaFile
       else ([], Inr ())))))"

text \<open>The statements of \<open>transcribe\<close> up to the first call of \<open>getTranscriptionJob\<close>.\<close>

definition before_poll ::
  "world \<Rightarrow> TranscribeParams \<Rightarrow> string \<Rightarrow> string \<Rightarrow> string \<Rightarrow> transcription_job option run" where
  "before_poll w params mediaFile jobName uri =
     and_then (bucketExists w (bucketName params)) (\<lambda>exists.
     and_then (if \<not> exists then createBucket w (bucketName params) else ([], Inr ())) (\<lambda>_.
     and_then (uploadFile w (bucketName params) (inputFile params) mediaFile) (\<lambda>_.
     and_then (startTranscription w jobName uri) (\<lambda>_.
       getTranscriptionJob w jobName 0))))"

definition transcribe :: "world \<Rightarrow> TranscribeParams \<Rightarrow> (unit run) option" where
  "transcribe w params =
     (let mediaFile = basename w (inputFile params);
          jobName = ''transcribe_'' @ uuid w @ ''_'' @ mediaFile;
          uri = ''https://s3-'' @ region w @ ''.amazonaws.com/'' @ bucketName params @ ''/'' @ mediaFile
      in case before_poll w params mediaFile jobName uri of
           (tr, Inl e) \<Rightarrow> Some (tr, Inl e)
         | (tr, Inr job) \<Rightarrow>
             (case poll w jobName 1 tr job of
                None \<Rightarrow> None
              | Some (tr', Inl e) \<Rightarrow> Some (tr', Inl e)
              | Some (tr', Inr j) \<Rightarrow>
                  (case after_poll w params mediaFile j of (t, r) \<Rightarrow> Some (tr' @ t, r))))"

subsection \<open>Example runs\<close>

text \<open>
  A world in which the bucket \<open>b\<close> exists and every call succeeds, given whether the input
  file exists, the job that \<open>getTranscriptionJob\<close> answers every time, and the fetched
  items; and the parameters of a run on \<open>/talk.wav\<close>.
\<close>

definition example_world ::
  "bool \<Rightarrow> transcription_job \<Rightarrow> IItem list \<Rightarrow> world" where
  "example_world file_exists job items =
     \<lparr>region = ''us-east-1'', uuid = ''u1'', basename = (\<lambda>_. ''talk.wav''),
      s3_listBuckets = Inr (Some [Some ''b'']), s3_createBucket = None,
      fs_existsSync = (\<lambda>_. file_exists), fs_stream_error = None, s3_upload = None,
      startTranscriptionJob = None, getTranscriptionJob_response = (\<lambda>_. Inr (Some job)),
      axios = (\<lambda>_. Inr items), fs_writeFile = None, s3_deleteObject = None\<rparr>"

definition example_params :: TranscribeParams where
  "example_params =
     \<lparr>bucketName = ''b'', inputFile = ''/talk.wav'', outputFile = ''/talk.srt'', deleteFile = False\<rparr>"

text \<open>A job that the service reports as failed, without and with a transcript.\<close>

definition failed_job :: "transcript option \<Rightarrow> transcription_job" where
  "failed_job t =
     \<lparr>TranscriptionJobStatus = FAILED, Transcript = t, FailureReason = Some ''unsupported media''\<rparr>"

definition completed_job :: transcription_job where
  "completed_job =
     \<lparr>TranscriptionJobStatus = COMPLETED,
      Transcript = Some \<lparr>TranscriptFileUri = Some ''https://result''\<rparr>, FailureReason = None\<rparr>"

definition running_job :: transcription_job where
  "running_job = \<lparr>TranscriptionJobStatus = IN_PROGRESS, Transcript = None, FailureReason = None\<rparr>"

text \<open>The same world with a job that is in progress at the first two calls and completed then.\<close>

definition polling_world :: "IItem list \<Rightarrow> world" where
  "polling_world items =
     (example_world True completed_job items)
       \<lparr>getTranscriptionJob_response :=
          (\<lambda>n. Inr (Some (if n < 2 then running_job else completed_job)))\<rparr>"

text \<open>A request to start a job has the language code \<open>en-US\<close> and the media format \<open>mp4\<close>.\<close>

definition fixed_submission :: "event \<Rightarrow> bool" where
  "fixed_submission ev =
     (case ev of
        StartTranscriptionJob jp \<Rightarrow> LanguageCode jp = ''en-US'' \<and> MediaFormat jp = ''mp4''
      | _ \<Rightarrow> True)"

section \<open>Properties of double arithmetic\<close>

subsection \<open>Rounding a rational to an integer\<close>


lemma round_half_even_nearest:
  "\<bar>of_int (round_half_even y) - y\<bar> \<le> \<bar>of_int z - y\<bar>"
proof -
  define f where "f = \<lfloor>y\<rfloor>"
  define r where "r = y - of_int f"
  have r: "0 \<le> r" "r < 1"
    unfolding r_def f_def by linarith+
  have near: "\<bar>of_int (round_half_even y) - y\<bar> \<le> r" "\<bar>of_int (round_half_even y) - y\<bar> \<le> 1 - r"
    using r unfolding round_half_even_def Let_def f_def [symmetric] r_def [symmetric]
    by (auto simp add: r_def)
  show ?thesis
  proof (cases "z \<le> f")
    case True
    then have "of_int z \<le> (of_int f :: rat)" by simp
    then have "r \<le> \<bar>of_int z - y\<bar>" unfolding r_def by linarith
    with near(1) show ?thesis by linarith
  next
    case False
    then have "f + 1 \<le> z" by simp
    then have "of_int f + 1 \<le> (of_int z :: rat)" by (metis of_int_1 of_int_add of_int_le_iff)
    then have "1 - r \<le> \<bar>of_int z - y\<bar>" unfolding r_def by linarith
    with near(2) show ?thesis by linarith
  qed
qed

subsection \<open>Scaled rounding is to a nearest scaled double\<close>

lemma floor_lt_pow_bitlen:
  fixes a :: rat
  assumes "0 \<le> a"
  shows "a < 2 ^ nat (bitlen \<lfloor>a\<rfloor>)"
proof (cases "\<lfloor>a\<rfloor> = 0")
  case True
  then have "a < 1" using floor_eq_iff [of a 0] by simp
  with True show ?thesis by simp
next
  case False
  have "0 \<le> \<lfloor>a\<rfloor>" using assms by simp
  with False have pos: "0 < \<lfloor>a\<rfloor>" by linarith
  from bitlen_bounds [OF pos] have "\<lfloor>a\<rfloor> < 2 ^ nat (bitlen \<lfloor>a\<rfloor>)" by simp
  then have "\<lfloor>a\<rfloor> + 1 \<le> 2 ^ nat (bitlen \<lfloor>a\<rfloor>)" by simp
  then have "of_int (\<lfloor>a\<rfloor> + 1) \<le> (of_int (2 ^ nat (bitlen \<lfloor>a\<rfloor>)) :: rat)"
    by (simp only: of_int_le_iff)
  moreover have "a < of_int (\<lfloor>a\<rfloor> + 1)"
    using floor_correct [of a] by simp
  ultimately show ?thesis by simp
qed

lemma pow_bitlen_le_floor:
  fixes a :: rat
  assumes "54 \<le> bitlen \<lfloor>a\<rfloor>"
  shows "(2::rat) ^ (nat (bitlen \<lfloor>a\<rfloor>) - 1) \<le> a"
proof -
  have pos: "0 < \<lfloor>a\<rfloor>"
    using assms bitlen_eq_zero_iff [of "\<lfloor>a\<rfloor>"] by (cases "0 < \<lfloor>a\<rfloor>") auto
  from bitlen_bounds [OF pos] have "2 ^ nat (bitlen \<lfloor>a\<rfloor> - 1) \<le> \<lfloor>a\<rfloor>" by simp
  moreover have "nat (bitlen \<lfloor>a\<rfloor> - 1) = nat (bitlen \<lfloor>a\<rfloor>) - 1"
    using assms by simp
  ultimately have "2 ^ (nat (bitlen \<lfloor>a\<rfloor>) - 1) \<le> \<lfloor>a\<rfloor>" by simp
  then have "(of_int (2 ^ (nat (bitlen \<lfloor>a\<rfloor>) - 1)) :: rat) \<le> of_int \<lfloor>a\<rfloor>"
    by (simp only: of_int_le_iff)
  then have "(2::rat) ^ (nat (bitlen \<lfloor>a\<rfloor>) - 1) \<le> of_int \<lfloor>a\<rfloor>"
    by (simp only: of_int_power of_int_numeral)
  also have "of_int \<lfloor>a\<rfloor> \<le> a" by simp
  finally show ?thesis .
qed

text \<open>A scaled double: an integer of fewer than 54 bits times a power of two.\<close>

lemma round_scaled_nearest:
  assumes "0 \<le> a" and "\<bar>M\<bar> < 2 ^ 53"
  shows "\<bar>round_scaled a - a\<bar> \<le> \<bar>of_int M * 2 ^ j - a\<bar>"
proof -
  define b where "b = nat (bitlen \<lfloor>a\<rfloor>)"
  define k where "k = b - 53"
  define m where "m = round_half_even (a / 2 ^ k)"
  have rs: "round_scaled a = of_int m * 2 ^ k"
    by (simp add: round_scaled_def Let_def m_def k_def b_def)
  have mult: "\<bar>of_int m * 2 ^ k - a\<bar> \<le> \<bar>of_int z * 2 ^ k - a\<bar>" for z
  proof -
    have "\<bar>of_int m - a / 2 ^ k\<bar> \<le> \<bar>of_int z - a / 2 ^ k\<bar>"
      unfolding m_def by (rule round_half_even_nearest)
    then have "\<bar>of_int m - a / 2 ^ k\<bar> * 2 ^ k \<le> \<bar>of_int z - a / 2 ^ k\<bar> * 2 ^ k"
      by (simp add: mult_right_mono)
    moreover have "\<bar>of_int w - a / 2 ^ k\<bar> * 2 ^ k = \<bar>of_int w * 2 ^ k - a\<bar>" for w :: int
    proof -
      have "\<bar>of_int w - a / 2 ^ k\<bar> * 2 ^ k = \<bar>(of_int w - a / 2 ^ k) * 2 ^ k\<bar>"
        by (simp add: abs_mult)
      also have "(of_int w - a / 2 ^ k) * 2 ^ k = of_int w * 2 ^ k - a"
        by (simp add: field_simps)
      finally show ?thesis .
    qed
    ultimately show ?thesis by simp
  qed
  show ?thesis
  proof (cases "k \<le> j")
    case True
    then have "(2::rat) ^ (j - k) * 2 ^ k = 2 ^ j"
      by (simp add: power_add [symmetric])
    then have eq: "of_int (M * 2 ^ (j - k)) * (2::rat) ^ k = of_int M * 2 ^ j"
      by (simp add: mult.assoc)
    have "\<bar>round_scaled a - a\<bar> \<le> \<bar>of_int (M * 2 ^ (j - k)) * 2 ^ k - a\<bar>"
      unfolding rs by (rule mult)
    then show ?thesis
      unfolding eq .
  next
    case False
    then have jk: "j < k" by simp
    then have b54: "54 \<le> b" by (simp add: k_def)
    have kb: "k + 52 = b - 1" using b54 by (simp add: k_def)
    have low: "(2::rat) ^ (b - 1) \<le> a"
      using pow_bitlen_le_floor [of a] b54 by (simp add: b_def)
    have "\<bar>of_int M\<bar> < (2::rat) ^ 53"
      using assms(2) by (metis of_int_abs of_int_less_iff of_int_numeral of_int_power)
    then have "\<bar>of_int M * (2::rat) ^ j\<bar> < 2 ^ 53 * 2 ^ j"
      by (simp add: abs_mult)
    also have "(2::rat) ^ 53 * 2 ^ j = 2 ^ (53 + j)" by (simp add: power_add)
    also have "(2::rat) ^ (53 + j) \<le> 2 ^ (b - 1)"
      using jk kb by (intro power_increasing) simp_all
    finally have small: "\<bar>of_int M * (2::rat) ^ j\<bar> < 2 ^ (b - 1)" .
    have e1: "(2::rat) ^ (b - 1) = 2 ^ 52 * 2 ^ k"
      using kb by (metis power_add add.commute)
    have e2: "(of_int (2 ^ 52) :: rat) = 2 ^ 52"
      by (simp only: of_int_power of_int_numeral)
    from mult [of "2 ^ 52"] have "\<bar>of_int m * 2 ^ k - a\<bar> \<le> \<bar>2 ^ (b - 1) - a\<bar>"
      unfolding e2 e1 [symmetric] .
    with low small rs show ?thesis by linarith
  qed
qed

subsection \<open>Rounding is to a nearest double\<close>

lemma fl_nearest:
  assumes "\<bar>M\<bar> < 2 ^ 53" and "d * 2 ^ subnormal_bits = of_int M * 2 ^ j"
  shows "\<bar>fl x - x\<bar> \<le> \<bar>d - x\<bar>"
proof -
  define S :: rat where "S = 2 ^ subnormal_bits"
  have S: "0 < S" by (simp add: S_def)
  define a where "a = \<bar>x\<bar> * S"
  have a0: "0 \<le> a" using S by (simp add: a_def)
  have flx: "fl x = sgn x * (round_scaled a / S)"
    by (simp add: fl_def a_def S_def)
  have dS: "d * S = of_int M * 2 ^ j"
    using assms(2) by (simp add: S_def)
  have scale: "\<bar>u / S - v / S\<bar> = \<bar>u - v\<bar> / S" for u v :: rat
    using S by (simp add: diff_divide_distrib [symmetric] abs_divide)
  show ?thesis
  proof (cases "0 \<le> x")
    case True
    then have xa: "x = a / S" using S by (simp add: a_def)
    have "fl x = round_scaled a / S \<or> x = 0"
      using True flx by (cases "x = 0") (simp_all add: sgn_if)
    moreover have "round_scaled 0 = 0"
      by (simp add: round_scaled_def round_half_even_def)
    ultimately have f: "fl x = round_scaled a / S"
      using flx by (auto simp add: a_def)
    have d: "d = (of_int M * 2 ^ j) / S"
      using dS S by (simp add: field_simps)
    have "\<bar>fl x - x\<bar> = \<bar>round_scaled a - a\<bar> / S"
      unfolding f by (subst xa) (rule scale)
    also have "\<dots> \<le> \<bar>of_int M * 2 ^ j - a\<bar> / S"
      using round_scaled_nearest [OF a0 assms(1), of j] S by (simp add: divide_right_mono)
    also have "\<dots> = \<bar>d - x\<bar>"
      unfolding d by (subst xa) (rule scale [symmetric])
    finally show ?thesis .
  next
    case False
    then have neg: "x < 0" by simp
    then have xa: "x = - (a / S)" using S by (simp add: a_def)
    have f: "fl x = - (round_scaled a / S)"
      using neg flx by (simp add: sgn_if)
    have M': "\<bar>- M\<bar> < 2 ^ 53" using assms(1) by simp
    have d: "- d = (of_int (- M) * 2 ^ j) / S"
      using dS S by (simp add: field_simps)
    have "\<bar>fl x - x\<bar> = \<bar>round_scaled a / S - a / S\<bar>"
      unfolding f by (subst xa) simp
    also have "\<dots> = \<bar>round_scaled a - a\<bar> / S"
      by (rule scale)
    also have "\<dots> \<le> \<bar>of_int (- M) * 2 ^ j - a\<bar> / S"
      using round_scaled_nearest [OF a0 M', of j] S by (simp add: divide_right_mono)
    also have "\<dots> = \<bar>(- d) - a / S\<bar>"
      unfolding d by (rule scale [symmetric])
    also have "\<dots> = \<bar>d - x\<bar>"
      by (subst xa) simp
    finally show ?thesis .
  qed
qed

text \<open>A number of that form is a double.\<close>

lemma is_doubleI:
  assumes "\<bar>M\<bar> < 2 ^ 53" and "x * 2 ^ subnormal_bits = of_int M * 2 ^ j"
  shows "is_double x"
  using fl_nearest [OF assms, of x] by (simp add: is_double_def)

lemma is_double_of_int:
  assumes "\<bar>n\<bar> < 2 ^ 53"
  shows "is_double (of_int n)"
  by (rule is_doubleI [OF assms, of _ subnormal_bits]) simp

text \<open>Every double has that form.\<close>

lemma round_half_even_bounds:
  assumes "0 \<le> y" and "y < of_int n"
  shows "0 \<le> round_half_even y" and "round_half_even y \<le> n"
proof -
  have f0: "0 \<le> \<lfloor>y\<rfloor>" using assms(1) by simp
  have "\<lfloor>y\<rfloor> < n" using assms(2) by (simp add: floor_less_iff)
  then have f1: "\<lfloor>y\<rfloor> + 1 \<le> n" by simp
  have "round_half_even y = \<lfloor>y\<rfloor> \<or> round_half_even y = \<lfloor>y\<rfloor> + 1"
    by (simp add: round_half_even_def Let_def)
  with f0 f1 show "0 \<le> round_half_even y" and "round_half_even y \<le> n"
    by auto
qed

lemma round_scaled_form:
  assumes "0 \<le> a"
  obtains m k where "0 \<le> m" and "m \<le> 2 ^ 53" and "round_scaled a = of_int m * 2 ^ k"
proof -
  define b where "b = nat (bitlen \<lfloor>a\<rfloor>)"
  define k where "k = b - 53"
  define m where "m = round_half_even (a / 2 ^ k)"
  have rs: "round_scaled a = of_int m * 2 ^ k"
    by (simp add: round_scaled_def Let_def m_def k_def b_def)
  have "a < 2 ^ b"
    using floor_lt_pow_bitlen [OF assms] by (simp add: b_def)
  also have "(2::rat) ^ b \<le> 2 ^ (53 + k)"
    by (intro power_increasing) (simp_all add: k_def)
  finally have "a < 2 ^ 53 * 2 ^ k"
    by (simp add: power_add)
  then have "a / 2 ^ k < 2 ^ 53"
    by (simp add: field_simps)
  then have "a / 2 ^ k < of_int (2 ^ 53)"
    by simp
  moreover have "0 \<le> a / 2 ^ k"
    using assms by simp
  ultimately have mb: "0 \<le> m" "m \<le> 2 ^ 53"
    unfolding m_def using round_half_even_bounds [of "a / 2 ^ k" "2 ^ 53"] by blast+
  show thesis by (rule that [OF mb rs])
qed

lemma is_doubleE:
  assumes "is_double x"
  obtains M j where "\<bar>M\<bar> < 2 ^ 53" and "x * 2 ^ subnormal_bits = of_int M * 2 ^ j"
proof -
  define S :: rat where "S = 2 ^ subnormal_bits"
  have S: "0 < S" by (simp add: S_def)
  have "0 \<le> \<bar>x\<bar> * S" using S by simp
  then obtain m k where m: "0 \<le> m" "m \<le> 2 ^ 53"
    and rs: "round_scaled (\<bar>x\<bar> * S) = of_int m * 2 ^ k"
    by (rule round_scaled_form)
  have "x = sgn x * (of_int m * 2 ^ k / S)"
    using assms rs by (simp add: is_double_def fl_def S_def)
  then have "x * S = sgn x * (of_int m * 2 ^ k / S) * S"
    by simp
  also have "\<dots> = sgn x * (of_int m * 2 ^ k)"
    using S by simp
  finally have xs: "x * S = of_int (if 0 < x then m else if x < 0 then - m else 0) * 2 ^ k"
    by (auto simp add: sgn_if)
  show thesis
  proof (cases "m = 2 ^ 53")
    case False
    with m have "\<bar>if 0 < x then m else if x < 0 then - m else 0\<bar> < 2 ^ 53"
      by auto
    then show thesis
      using xs unfolding S_def by (rule that)
  next
    case True
    have "x * S = of_int (if 0 < x then 1 else if x < 0 then - 1 else 0) * 2 ^ (53 + k)"
      using xs True by (auto simp add: power_add)
    moreover have "\<bar>if 0 < x then 1 else if x < 0 then - 1 else (0::int)\<bar> < 2 ^ 53"
      by simp
    ultimately show thesis
      unfolding S_def by (rule that [rotated])
  qed
qed

subsection \<open>The doubles below an integer\<close>

lemma double_gap_below_int:
  fixes x :: rat
  assumes "\<bar>M\<bar> < 2 ^ 53" and "x * 2 ^ subnormal_bits = of_int M * 2 ^ j"
    and "x < of_int N" and "2 ^ P < 2 * N" and "P \<le> 52"
  shows "x + 2 ^ P / 2 ^ 53 \<le> of_int N"
proof -
  define S :: rat where "S = 2 ^ subnormal_bits"
  have S: "0 < S" by (simp add: S_def)
  have rep: "x * S = of_int M * 2 ^ j"
    using assms(2) by (simp add: S_def)
  define g :: rat where "g = 2 ^ P / 2 ^ 53"
  have g: "0 < g" by (simp add: g_def)
  show ?thesis
  proof (cases "P + subnormal_bits \<le> j + 53")
    case True
    define t where "t = j + 53 - (P + subnormal_bits)"
    have "j + 53 = t + (P + subnormal_bits)"
      using True by (simp add: t_def)
    then have "(2::rat) ^ (j + 53) = 2 ^ t * (2 ^ P * S)"
      by (simp add: power_add S_def)
    then have pw: "(2::rat) ^ j * 2 ^ 53 = 2 ^ t * (2 ^ P * S)"
      by (simp add: power_add)
    have "x * S * 2 ^ 53 = of_int M * (2 ^ j * 2 ^ 53)"
      using rep by simp
    also have "\<dots> = of_int M * (2 ^ t * (2 ^ P * S))"
      by (simp only: pw)
    finally have "x * 2 ^ 53 * S = of_int M * 2 ^ t * 2 ^ P * S"
      by (simp add: mult_ac)
    then have "x * 2 ^ 53 = of_int M * 2 ^ t * 2 ^ P"
      using S by simp
    then have "x = of_int M * 2 ^ t * 2 ^ P / 2 ^ 53"
      by (simp add: field_simps)
    then have xg: "x = of_int (M * 2 ^ t) * g"
      by (simp add: g_def)
    have "53 = (53 - P) + P"
      using assms(5) by simp
    then have "(2::rat) ^ 53 = 2 ^ (53 - P) * 2 ^ P"
      by (metis power_add)
    then have one: "(2::rat) ^ (53 - P) * 2 ^ P / 2 ^ 53 = 1"
      by simp
    have "of_int (N * 2 ^ (53 - P)) * g = of_int N * ((2::rat) ^ (53 - P) * 2 ^ P / 2 ^ 53)"
      by (simp add: g_def)
    then have Ng: "(of_int N :: rat) = of_int (N * 2 ^ (53 - P)) * g"
      by (simp only: one mult_1_right)
    have "of_int (M * 2 ^ t) * g < of_int (N * 2 ^ (53 - P)) * g"
      using assms(3) unfolding xg [symmetric] Ng [symmetric] .
    then have "(of_int (M * 2 ^ t) :: rat) < of_int (N * 2 ^ (53 - P))"
      using g by (simp only: mult_less_cancel_right_pos)
    then have "M * 2 ^ t < N * 2 ^ (53 - P)"
      by (simp only: of_int_less_iff)
    then have "M * 2 ^ t + 1 \<le> N * 2 ^ (53 - P)"
      by simp
    then have "(of_int (M * 2 ^ t + 1) :: rat) \<le> of_int (N * 2 ^ (53 - P))"
      by (simp only: of_int_le_iff)
    then have "of_int (M * 2 ^ t + 1) * g \<le> of_int (N * 2 ^ (53 - P)) * g"
      using g by (simp only: mult_le_cancel_right_pos)
    then have "of_int (M * 2 ^ t) * g + g \<le> of_int (N * 2 ^ (53 - P)) * g"
      by (simp add: algebra_simps)
    then have "x + g \<le> of_int N"
      unfolding xg [symmetric] Ng [symmetric] .
    then show ?thesis
      unfolding g_def .
  next
    case False
    then have "j + 54 \<le> P + subnormal_bits" by simp
    then have "(2::rat) ^ (j + 54) \<le> 2 ^ (P + subnormal_bits)"
      by (intro power_increasing) simp_all
    then have le: "2 * (2 ^ 53 * (2::rat) ^ j) \<le> 2 ^ P * S"
      by (simp add: power_add S_def mult_ac)
    have "\<bar>of_int M\<bar> < (2::rat) ^ 53"
      using assms(1) by (metis of_int_abs of_int_less_iff of_int_numeral of_int_power)
    then have "of_int M < (2::rat) ^ 53" by simp
    then have "of_int M * (2::rat) ^ j < 2 ^ 53 * 2 ^ j"
      by (intro mult_strict_right_mono) simp_all
    with rep le have "2 * (x * S) < 2 ^ P * S" by linarith
    then have "(2 * x) * S < 2 ^ P * S" by (simp add: mult_ac)
    then have x2: "2 * x < 2 ^ P"
      using S by (simp only: mult_less_cancel_right_pos)
    have "2 ^ P + 1 \<le> 2 * N" using assms(4) by simp
    then have "(of_int (2 ^ P + 1) :: rat) \<le> of_int (2 * N)"
      by (simp only: of_int_le_iff)
    then have N2: "(2::rat) ^ P + 1 \<le> 2 * of_int N" by simp
    have "(2::rat) ^ P \<le> 2 ^ 52"
      using assms(5) by (intro power_increasing) simp_all
    then have "2 * (2 ^ P / 2 ^ 53) \<le> (1::rat)" by simp
    with x2 N2 show ?thesis by linarith
  qed
qed

subsection \<open>Division by an integer, then \<open>Math.floor\<close>\<close>

lemma bitlen_upper:
  assumes "0 \<le> n"
  shows "n < 2 ^ nat (bitlen n)"
proof (cases "n = 0")
  case True then show ?thesis by simp
next
  case False
  with assms have "0 < n" by simp
  from bitlen_bounds [OF this] show ?thesis by simp
qed

lemma bitlen_lower:
  assumes "0 < n"
  shows "2 ^ nat (bitlen n) \<le> 2 * n"
proof -
  have "1 \<le> bitlen n"
    using assms bitlen_eq_zero_iff [of n] bitlen_nonneg [of n] by linarith
  then obtain m where m: "nat (bitlen n) = Suc m" "nat (bitlen n - 1) = m"
    by (metis Suc_nat_eq_nat_zadd1 diff_add_cancel diff_ge_0_iff_ge add.commute)
  have "2 ^ m \<le> n"
    using bitlen_bounds [OF assms] m(2) by simp
  then show ?thesis
    by (simp add: m(1))
qed

lemma floor_fl_divide:
  assumes "is_double x" and "0 \<le> x" and "0 < d"
    and "bitlen d + bitlen \<lfloor>x / of_int d\<rfloor> \<le> 53"
  shows "\<lfloor>fl (x / of_int d)\<rfloor> = \<lfloor>x / of_int d\<rfloor>"
proof -
  define q where "q = x / of_int d"
  define F where "F = \<lfloor>q\<rfloor>"
  define K where "K = F + 1"
  define B where "B = nat (bitlen F)"
  define D where "D = nat (bitlen d)"
  define P where "P = D + B - 1"
  define n where "n = 53 - B"
  define g :: rat where "g = 2 ^ B / 2 ^ 53"
  have d0: "(0::rat) < of_int d" using assms(3) by simp
  have q0: "0 \<le> q" using assms(2) d0 by (simp add: q_def)
  have F0: "0 \<le> F" using q0 by (simp add: F_def)
  have Fq: "of_int F \<le> q" "q < of_int K"
    unfolding F_def K_def by linarith+
  have bits: "D + B \<le> 53"
    using assms(4) bitlen_nonneg [of d] bitlen_nonneg [of F]
    by (simp add: D_def B_def F_def q_def nat_le_iff nat_add_distrib)
  have D1: "1 \<le> D"
    using assms(3) bitlen_eq_zero_iff [of d] bitlen_nonneg [of d] by (simp add: D_def)
  have FB1: "F < 2 ^ B"
    using bitlen_upper [OF F0] by (simp add: B_def)
  have FB2: "2 ^ B < 2 * K"
  proof (cases "F = 0")
    case True then show ?thesis by (simp add: B_def K_def)
  next
    case False
    with F0 have "0 < F" by simp
    from bitlen_lower [OF this] show ?thesis by (simp add: B_def K_def)
  qed
  have dD: "2 ^ D \<le> 2 * d" "d < 2 ^ D"
    using bitlen_lower [OF assms(3)] bitlen_upper [of d] assms(3) by (simp_all add: D_def)
  have Bn: "B + n = 53" using bits by (simp add: n_def)
  have g0: "0 < g" by (simp add: g_def)
  text \<open>Not below the floor.\<close>
  have "(2::int) ^ B \<le> 2 ^ 53"
    using bits by (intro power_increasing) simp_all
  with FB1 F0 have "\<bar>F\<bar> < 2 ^ 53" by simp
  then have "\<bar>fl q - q\<bar> \<le> \<bar>of_int F - q\<bar>"
    by (rule fl_nearest [of _ _ subnormal_bits]) simp
  with Fq(1) have lower: "of_int F \<le> fl q" by linarith
  text \<open>Below the next integer.\<close>
  obtain M j where M: "\<bar>M\<bar> < 2 ^ 53" and rep: "x * 2 ^ subnormal_bits = of_int M * 2 ^ j"
    using assms(1) by (rule is_doubleE)
  have xN: "x < of_int (d * K)"
    using Fq(2) d0 by (simp add: q_def field_simps)
  have "(0::int) < 2 ^ D" by simp
  then have "(2::int) ^ D * 2 ^ B < (2 * d) * (2 * K)"
    using dD(1) FB2 by (intro mult_le_less_imp_less) simp_all
  moreover have "D + B = Suc P" using D1 by (simp add: P_def)
  ultimately have "2 * (2::int) ^ P < 4 * (d * K)"
    by (simp add: power_add [symmetric])
  then have PN: "2 ^ P < 2 * (d * K)" by (simp add: mult.commute)
  have P52: "P \<le> 52" using bits by (simp add: P_def)
  define gm :: rat where "gm = 2 ^ P / 2 ^ 53"
  have gap: "x + gm \<le> of_int (d * K)"
    unfolding gm_def by (rule double_gap_below_int [OF M rep xN PN P52])
  have "(2::rat) ^ D * 2 ^ B = 2 * 2 ^ P"
    using \<open>D + B = Suc P\<close> by (simp add: power_add [symmetric])
  then have two_gap: "2 * gm = 2 ^ D * g"
    by (simp add: g_def gm_def)
  have "of_int d < (2::rat) ^ D"
    using dD(2) by (metis of_int_less_iff of_int_numeral of_int_power)
  then have "of_int d * g < 2 ^ D * g"
    using g0 by simp
  then have "of_int d * g < 2 * gm"
    by (simp only: two_gap)
  also have "2 * gm \<le> 2 * (of_int (d * K) - x)"
    using gap by simp
  also have "2 * (of_int (d * K) - x) = of_int d * (2 * (of_int K - q))"
    using d0 by (simp add: q_def field_simps)
  finally have "g < 2 * (of_int K - q)"
    using d0 by (simp only: mult_less_cancel_left_pos)
  then have half: "q < of_int K - g / 2" by simp
  text \<open>The double \<open>K - g\<close> is nearer to \<open>q\<close> than \<open>K\<close> is.\<close>
  define c where "c = of_int K - g"
  have "(2::rat) ^ 53 = 2 ^ B * 2 ^ n"
    using Bn by (metis power_add)
  then have gn: "g * 2 ^ n = 1"
    by (simp add: g_def)
  have "n \<le> subnormal_bits" by (simp add: n_def subnormal_bits_def)
  then have "(2::rat) ^ subnormal_bits = 2 ^ n * 2 ^ (subnormal_bits - n)"
    by (simp add: power_add [symmetric])
  then have "c * 2 ^ subnormal_bits = (of_int K * 2 ^ n - g * 2 ^ n) * 2 ^ (subnormal_bits - n)"
    by (simp add: c_def algebra_simps)
  then have crep: "c * 2 ^ subnormal_bits = of_int (K * 2 ^ n - 1) * 2 ^ (subnormal_bits - n)"
    by (simp add: gn)
  have "K \<le> 2 ^ B" using FB1 by (simp add: K_def)
  then have "K * 2 ^ n \<le> 2 ^ B * 2 ^ n"
    by (intro mult_right_mono) simp_all
  also have "(2::int) ^ B * 2 ^ n = 2 ^ 53"
    using Bn by (metis power_add)
  finally have "K * 2 ^ n \<le> 2 ^ 53" .
  moreover have "1 * 1 \<le> K * 2 ^ n"
    using F0 by (intro mult_mono) (simp_all add: K_def)
  ultimately have cM: "\<bar>K * 2 ^ n - 1\<bar> < 2 ^ 53"
    by simp
  have "\<bar>fl q - q\<bar> \<le> \<bar>c - q\<bar>"
    by (rule fl_nearest [OF cM crep])
  with half g0 have upper: "fl q < of_int K"
    unfolding c_def by linarith
  from lower upper have "\<lfloor>fl q\<rfloor> = F"
    unfolding K_def by (intro floor_unique) simp_all
  then show ?thesis
    by (simp add: F_def q_def)
qed

subsection \<open>Exact differences and products\<close>

lemma is_double_diff_int:
  assumes "is_double x" and "0 \<le> n" and "of_int n \<le> x" and "x < 2 ^ 53"
  shows "is_double (x - of_int n)"
proof -
  obtain M j where M: "\<bar>M\<bar> < 2 ^ 53" and rep: "x * 2 ^ subnormal_bits = of_int M * 2 ^ j"
    using assms(1) by (rule is_doubleE)
  show ?thesis
  proof (cases "j \<le> subnormal_bits")
    case True
    define t where "t = subnormal_bits - j"
    have pw: "(2::rat) ^ t * 2 ^ j = 2 ^ subnormal_bits"
      using True by (simp add: t_def power_add [symmetric])
    have "of_int (n * 2 ^ t) * (2::rat) ^ j = of_int n * (2 ^ t * 2 ^ j)"
      by (simp add: mult.assoc)
    then have e: "of_int n * (2::rat) ^ subnormal_bits = of_int (n * 2 ^ t) * 2 ^ j"
      by (simp only: pw)
    have "(x - of_int n) * 2 ^ subnormal_bits
        = x * 2 ^ subnormal_bits - of_int n * 2 ^ subnormal_bits"
      by (rule left_diff_distrib)
    also have "\<dots> = of_int M * 2 ^ j - of_int (n * 2 ^ t) * 2 ^ j"
      by (simp only: rep e)
    also have "\<dots> = of_int (M - n * 2 ^ t) * 2 ^ j"
      by (simp only: of_int_diff left_diff_distrib)
    finally have r: "(x - of_int n) * 2 ^ subnormal_bits = of_int (M - n * 2 ^ t) * 2 ^ j" .
    have "0 \<le> (x - of_int n) * 2 ^ subnormal_bits"
      using assms(3) by simp
    then have "0 \<le> (of_int (M - n * 2 ^ t) :: rat) * 2 ^ j"
      by (simp only: r)
    moreover have "(0::rat) < 2 ^ j"
      by simp
    ultimately have "0 \<le> (of_int (M - n * 2 ^ t) :: rat)"
      by (simp only: zero_le_mult_iff) linarith
    then have lo: "0 \<le> M - n * 2 ^ t"
      by (simp only: of_int_0_le_iff)
    have "0 \<le> n * 2 ^ t"
      using assms(2) by simp
    with lo M have "\<bar>M - n * 2 ^ t\<bar> < 2 ^ 53"
      by linarith
    then show ?thesis
      using r by (rule is_doubleI)
  next
    case False
    define t where "t = j - subnormal_bits"
    have pw: "(2::rat) ^ t * 2 ^ subnormal_bits = 2 ^ j"
      using False by (simp add: t_def power_add [symmetric])
    have "of_int (M * 2 ^ t) * (2::rat) ^ subnormal_bits = of_int M * (2 ^ t * 2 ^ subnormal_bits)"
      by (simp add: mult.assoc)
    with rep have "x * 2 ^ subnormal_bits = of_int (M * 2 ^ t) * 2 ^ subnormal_bits"
      by (simp only: pw)
    then have x: "x = of_int (M * 2 ^ t)"
      by simp
    have "(of_int (M * 2 ^ t - n) :: rat) < of_int (2 ^ 53)"
      using assms(2,4) unfolding x by simp
    then have "M * 2 ^ t - n < 2 ^ 53"
      by (simp only: of_int_less_iff)
    moreover have "(0::rat) \<le> of_int (M * 2 ^ t - n)"
      using assms(3) unfolding x by simp
    then have "0 \<le> M * 2 ^ t - n"
      by (simp only: of_int_0_le_iff)
    ultimately have "\<bar>M * 2 ^ t - n\<bar> < 2 ^ 53"
      by simp
    then have "is_double (of_int (M * 2 ^ t - n))"
      by (rule is_double_of_int)
    then show ?thesis
      unfolding x by simp
  qed
qed

lemma fl_of_int:
  assumes "\<bar>n\<bar> < 2 ^ 53"
  shows "fl (of_int n) = of_int n"
  using is_double_of_int [OF assms] by (simp add: is_double_def)

lemma fl_zero: "fl 0 = 0"
  using fl_of_int [of 0] by simp

lemma fl_one: "fl 1 = 1"
  using fl_of_int [of 1] by simp

lemma fl_numeral:
  assumes "(numeral w :: int) < 2 ^ 53"
  shows "fl (numeral w) = numeral w"
  using fl_of_int [of "numeral w"] assms by simp

lemma fl_half: "fl (1 / 2) = 1 / 2"
proof -
  have "subnormal_bits = Suc (subnormal_bits - 1)"
    by (simp add: subnormal_bits_def)
  then have "(2::rat) ^ subnormal_bits = 2 * 2 ^ (subnormal_bits - 1)"
    by (metis power_Suc)
  then have "(1 / 2) * (2::rat) ^ subnormal_bits = of_int 1 * 2 ^ (subnormal_bits - 1)"
    by simp
  then have "is_double (1 / 2)"
    by (rule is_doubleI [rotated]) simp
  then show ?thesis
    by (simp add: is_double_def)
qed


section \<open>Properties of the Segmenter\<close>

subsection \<open>Array reads and single steps\<close>

lemma array_at_nat: "array_at xs (int i) = (if i < length xs then Some (xs ! i) else None)"
  by (simp add: array_at_def)

lemma array_at_zero: "array_at xs 0 = (case xs of [] \<Rightarrow> None | x # _ \<Rightarrow> Some x)"
  by (cases xs) (simp_all add: array_at_def)

lemma array_at_succ:
  "array_at xs (int i + 1) = (if Suc i < length xs then Some (xs ! Suc i) else None)"
  using array_at_nat [of xs "Suc i"] by (simp add: add.commute)

lemma array_at_pred:
  "array_at xs (int i - 1) = (if 0 < i \<and> i - 1 < length xs then Some (xs ! (i - 1)) else None)"
proof (cases i)
  case 0
  then show ?thesis by (simp add: array_at_def)
next
  case (Suc k)
  then show ?thesis using array_at_nat [of xs k] by simp
qed

lemma forEach_snoc:
  "forEach items (is @ [i]) s =
     (case forEach items is s of Inl e \<Rightarrow> Inl e | Inr s' \<Rightarrow> step items i s')"
  by (induction "is" arbitrary: s) (auto split: sum.splits)

text \<open>The three outcomes of a successful step.\<close>

lemma step_punctuation:
  assumes "type (items ! i) = punctuation" and "0 < i" and "i < length items"
    and "alternatives (items ! i) \<noteq> []"
  shows "step items i s =
     Inr \<lparr>convertedOutput = convertedOutput s @ render_cue
             \<lparr>cue_index = subtitleIndex s, cue_start = current_start s,
              cue_end = end_time (items ! (i - 1)),
              cue_text = butlast (nextline s) @ content (hd (alternatives (items ! i)))\<rparr>,
          subtitleIndex = subtitleIndex s + 1,
          current_start = (if Suc i < length items then start_time (items ! Suc i) else current_start s),
          nextline = [],
          cues = cues s @ [\<lparr>cue_index = subtitleIndex s, cue_start = current_start s,
              cue_end = end_time (items ! (i - 1)),
              cue_text = butlast (nextline s) @ content (hd (alternatives (items ! i)))\<rparr>]\<rparr>"
  using assms
  by (cases "alternatives (items ! i)")
     (simp_all add: step_def first_content_def read_prop_def array_at_zero array_at_pred array_at_succ Let_def)

lemma step_threshold:
  assumes "type (items ! i) \<noteq> punctuation" and "js_minus (end_time (items ! i)) (current_start s) > 5"
    and "0 < i" and "i < length items" and "alternatives (items ! i) \<noteq> []"
  shows "step items i s =
     Inr \<lparr>convertedOutput = convertedOutput s @ render_cue
             \<lparr>cue_index = subtitleIndex s, cue_start = current_start s,
              cue_end = end_time (items ! (i - 1)), cue_text = nextline s\<rparr>,
          subtitleIndex = subtitleIndex s + 1,
          current_start = start_time (items ! i),
          nextline = content (hd (alternatives (items ! i))) @ '' '',
          cues = cues s @ [\<lparr>cue_index = subtitleIndex s, cue_start = current_start s,
              cue_end = end_time (items ! (i - 1)), cue_text = nextline s\<rparr>]\<rparr>"
  using assms
  by (cases "alternatives (items ! i)")
     (simp_all add: step_def first_content_def read_prop_def array_at_zero array_at_pred Let_def)

lemma step_append:
  assumes "type (items ! i) \<noteq> punctuation" and "\<not> js_minus (end_time (items ! i)) (current_start s) > 5"
    and "alternatives (items ! i) \<noteq> []"
  shows "step items i s = Inr (s\<lparr>nextline := nextline s @ content (hd (alternatives (items ! i))) @ '' ''\<rparr>)"
  using assms
  by (cases "alternatives (items ! i)")
     (simp_all add: step_def first_content_def read_prop_def array_at_zero Let_def)

lemma array_at_neg: "i < 0 \<Longrightarrow> array_at xs i = None"
  by (simp add: array_at_def)

lemma step_no_alternative:
  assumes "alternatives (items ! i) = []"
  shows "step items i s = Inl TypeError"
  using assms
  by (simp add: step_def first_content_def read_prop_def array_at_zero Let_def split: option.splits)

lemma step_first_closes:
  assumes "type (items ! 0) = punctuation \<or> js_minus (end_time (items ! 0)) (current_start s) > 5"
  shows "step items 0 s = Inl TypeError"
  using assms
  by (auto simp add: step_def first_content_def read_prop_def array_at_neg Let_def
        split: sum.splits option.splits)

text \<open>Every successful step is one of the three.\<close>

lemma step_cases:
  assumes "step items i s = Inr s'"
  obtains
    (punct) "type (items ! i) = punctuation" "0 < i" "alternatives (items ! i) \<noteq> []"
  | (threshold) "type (items ! i) \<noteq> punctuation" "js_minus (end_time (items ! i)) (current_start s) > 5"
      "0 < i" "alternatives (items ! i) \<noteq> []"
  | (append) "type (items ! i) \<noteq> punctuation" "\<not> js_minus (end_time (items ! i)) (current_start s) > 5"
      "alternatives (items ! i) \<noteq> []"
proof -
  have alt: "alternatives (items ! i) \<noteq> []"
    using assms step_no_alternative [of items i s] by auto
  have pos: "0 < i" if "type (items ! i) = punctuation \<or> js_minus (end_time (items ! i)) (current_start s) > 5"
    using that assms step_first_closes [of items s] by (cases i) auto
  show thesis
    using alt pos that by blast
qed

text \<open>What a successful step does to the captions, the counter and the running start.\<close>

lemma step_effect:
  assumes "step items i s = Inr s'" and "i < length items"
  shows "(cues s' = cues s \<and> subtitleIndex s' = subtitleIndex s
            \<and> current_start s' = current_start s \<and> convertedOutput s' = convertedOutput s)
       \<or> (\<exists>q. cues s' = cues s @ [q] \<and> cue_index q = subtitleIndex s
              \<and> cue_start q = current_start s \<and> cue_end q = end_time (items ! (i - 1))
              \<and> subtitleIndex s' = Suc (subtitleIndex s)
              \<and> convertedOutput s' = convertedOutput s @ render_cue q
              \<and> 0 < i
              \<and> (current_start s' = current_start s \<and> length items = Suc i
                  \<or> current_start s' = start_time (items ! i)
                  \<or> current_start s' = start_time (items ! Suc i) \<and> Suc i < length items))"
  using assms(1)
proof (cases rule: step_cases)
  case punct
  show ?thesis
    using assms punct(2) unfolding step_punctuation [OF punct(1,2) assms(2) punct(3)]
    by (cases "Suc i < length items") auto
next
  case threshold
  show ?thesis
    using assms threshold(3) unfolding step_threshold [OF threshold(1,2,3) assms(2) threshold(4)]
    by auto
next
  case append
  show ?thesis
    using assms unfolding step_append [OF append]
    by auto
qed

subsection \<open>Invariants of the pass\<close>

text \<open>
  A property that holds before the pass and is kept by every successful step at an index
  in range holds after the first \<open>k\<close> items.
\<close>

lemma forEach_upt_invariant:
  assumes "forEach items [0..<k] s0 = Inr s" and "k \<le> length items" and "P 0 s0"
    and "\<And>i t t'. i < k \<Longrightarrow> P i t \<Longrightarrow> step items i t = Inr t' \<Longrightarrow> P (Suc i) t'"
  shows "P k s"
  using assms
proof (induction k arbitrary: s)
  case 0
  then show ?case by simp
next
  case (Suc k)
  from Suc.prems(1) obtain t where t: "forEach items [0..<k] s0 = Inr t" "step items k t = Inr s"
    by (auto simp add: forEach_snoc split: sum.splits)
  have "P k t"
    using Suc.IH [OF t(1)] Suc.prems by simp
  then show ?case
    using Suc.prems(4) [of k t s] t(2) by simp
qed




text \<open>A pass that ends on a punctuation item leaves no words behind.\<close>

lemma step_after_punctuation:
  assumes "step items i s = Inr s'" and "type (items ! i) = punctuation"
  shows "nextline s' = []"
  using assms
  by (auto simp add: step_def Let_def split: sum.splits)

lemma step_output:
  assumes "step items i s = Inr s'" and "i < length items"
    and "convertedOutput s = concat (map render_cue (cues s))"
  shows "convertedOutput s' = concat (map render_cue (cues s'))"
  using step_effect [OF assms(1,2)] assms(3) by auto

subsection \<open>The whole pass\<close>

lemma pass_nonempty:
  assumes "pass items = Inr s"
  shows "items \<noteq> []"
    and "forEach items [0..<length items] (init_state (start_time (items ! 0))) = Inr s"
  using assms
  by (cases items; simp add: pass_def read_prop_def array_at_zero init_state_def)+



lemma pass_output:
  assumes "pass items = Inr s"
  shows "convertedOutput s = concat (map render_cue (cues s))"
proof (rule forEach_upt_invariant [OF pass_nonempty(2) [OF assms],
      where P = "\<lambda>_ t. convertedOutput t = concat (map render_cue (cues t))"])
  show "convertedOutput (init_state (start_time (items ! 0)))
      = concat (map render_cue (cues (init_state (start_time (items ! 0)))))"
    by (simp add: init_state_def)
qed (auto intro: step_output)

lemma pass_ends_on_punctuation:
  assumes "pass items = Inr s" and "type (last items) = punctuation"
  shows "nextline s = []"
proof -
  have ne: "items \<noteq> []" by (rule pass_nonempty(1) [OF assms(1)])
  have "0 < length items \<and> type (items ! (length items - 1)) = punctuation \<longrightarrow> nextline s = []"
  proof (rule forEach_upt_invariant [OF pass_nonempty(2) [OF assms(1)],
      where P = "\<lambda>k t. 0 < k \<and> type (items ! (k - 1)) = punctuation \<longrightarrow> nextline t = []"])
    fix i t t'
    assume "step items i t = Inr t'"
    then show "0 < Suc i \<and> type (items ! (Suc i - 1)) = punctuation \<longrightarrow> nextline t' = []"
      by (auto dest: step_after_punctuation)
  qed simp_all
  with ne assms(2) show ?thesis
    by (simp add: last_conv_nth)
qed

lemma finish_not_punctuation:
  assumes "items \<noteq> []" and "type (last items) \<noteq> punctuation"
  shows "finish items s =
     (if nextline s \<noteq> [] then
        Inr (s\<lparr>convertedOutput := convertedOutput s @ render_last_cue
                  \<lparr>cue_index = subtitleIndex s, cue_start = current_start s,
                   cue_end = end_time (last items), cue_text = nextline s\<rparr>,
               subtitleIndex := subtitleIndex s + 1,
               cues := cues s @ [\<lparr>cue_index = subtitleIndex s, cue_start = current_start s,
                   cue_end = end_time (last items), cue_text = nextline s\<rparr>]\<rparr>)
      else Inr s)"
proof -
  have "array_at items (int (length items) - 1) = Some (last items)"
    using assms(1) by (simp add: array_at_pred last_conv_nth)
  then show ?thesis
    using assms(2) by (simp add: finish_def read_prop_def Let_def)
qed


subsection \<open>Evaluation on concrete transcripts\<close>

lemmas eval_defs = step_def Let_def first_content_def read_prop_def array_at_def word_def punct_def
  pass_def finish_def segment_def convertJsonToSrt_def init_state_def
  js_minus_def fl_zero fl_one fl_numeral fl_half

subsection \<open>When the conversion succeeds\<close>

lemma step_total:
  assumes "0 < i" and "i < length items" and "alternatives (items ! i) \<noteq> []"
  shows "\<exists>s'. step items i s = Inr s'"
proof (cases "type (items ! i) = punctuation")
  case True
  then show ?thesis
    using step_punctuation [OF True assms] by blast
next
  case False
  then show ?thesis
    using step_threshold [OF False _ assms, of s] step_append [OF False _ assms(3), of s]
    by (cases "js_minus (end_time (items ! i)) (current_start s) > 5") blast+
qed

lemma pass_prefix_succeeds:
  assumes "items \<noteq> []" and "\<forall>it \<in> set items. alternatives it \<noteq> []"
    and "type (items ! 0) \<noteq> punctuation"
    and "\<not> js_minus (end_time (items ! 0)) (start_time (items ! 0)) > 5"
    and "k \<le> length items"
  shows "\<exists>s. forEach items [0..<k] (init_state (start_time (items ! 0))) = Inr s"
  using assms(5)
proof (induction k)
  case 0
  then show ?case by simp
next
  case (Suc k)
  then obtain t where t: "forEach items [0..<k] (init_state (start_time (items ! 0))) = Inr t"
    by auto
  have alt: "alternatives (items ! k) \<noteq> []"
    using assms(2) Suc.prems by simp
  have "\<exists>s. step items k t = Inr s"
  proof (cases k)
    case 0
    with t have "t = init_state (start_time (items ! 0))" by simp
    then have "\<not> js_minus (end_time (items ! 0)) (current_start t) > 5"
      using assms(4) by (simp add: init_state_def)
    from step_append [OF assms(3) this] alt 0 show ?thesis by simp
  next
    case (Suc j)
    then show ?thesis
      using step_total [of k items t] Suc.prems alt by simp
  qed
  with t show ?case
    by (simp add: forEach_snoc)
qed

lemma segment_succeeds:
  assumes "items \<noteq> []" and "\<forall>it \<in> set items. alternatives it \<noteq> []"
    and "type (items ! 0) \<noteq> punctuation"
    and "\<not> js_minus (end_time (items ! 0)) (start_time (items ! 0)) > 5"
  shows "\<exists>s. segment items = Inr s"
proof -
  obtain t where "forEach items [0..<length items] (init_state (start_time (items ! 0))) = Inr t"
    using pass_prefix_succeeds [OF assms, of "length items"] by auto
  then have t: "pass items = Inr t"
    using assms(1) by (cases items) (simp_all add: pass_def read_prop_def array_at_zero init_state_def)
  have "\<exists>s. finish items t = Inr s"
  proof (cases "type (last items) = punctuation")
    case False
    then show ?thesis
      by (simp add: finish_not_punctuation [OF assms(1)])
  next
    case True
    then have "last items \<noteq> items ! 0"
      using assms(3) by auto
    then have "length items \<noteq> 1"
      using assms(1) by (auto simp add: last_conv_nth)
    moreover have "length items \<noteq> 0"
      using assms(1) by simp
    ultimately have "2 \<le> length items"
      by linarith
    then have "array_at items (int (length items) - 1) = Some (last items)"
      and "array_at items (int (length items) - 2) = Some (items ! (length items - 2))"
      using assms(1) by (auto simp add: array_at_def last_conv_nth nat_diff_distrib)
    then show ?thesis
      using True pass_ends_on_punctuation [OF t True]
      by (simp add: finish_def read_prop_def Let_def)
  qed
  with t show ?thesis
    by (simp add: segment_def)
qed

text \<open>The output is the rendering of the recorded captions, the trailing one without a blank line.\<close>

lemma segment_output:
  assumes "segment items = Inr s"
  shows "convertedOutput s = concat (map render_cue (cues s))
       \<or> cues s \<noteq> [] \<and> convertedOutput s =
            concat (map render_cue (butlast (cues s))) @ render_last_cue (last (cues s))"
proof -
  from assms obtain t where t: "pass items = Inr t" "finish items t = Inr s"
    by (auto simp add: segment_def split: sum.splits)
  from t(2) pass_output [OF t(1)] show ?thesis
    by (auto simp add: finish_def Let_def split: sum.splits if_splits)
qed

text \<open>
  A first item that is punctuation, or that ends more than five seconds after its start,
  makes the conversion throw: there is no item before it to take the end time from.
\<close>

lemma convert_first_item_closes:
  assumes "items \<noteq> []"
    and "type (items ! 0) = punctuation \<or> js_minus (end_time (items ! 0)) (start_time (items ! 0)) > 5"
  shows "convertJsonToSrt items = Inl TypeError"
proof -
  have u: "[0..<length items] = 0 # [1..<length items]"
    using assms(1) by (simp add: upt_conv_Cons)
  have st: "step items 0 (init_state (start_time (items ! 0))) = Inl TypeError"
    using assms(2) by (intro step_first_closes) (simp add: init_state_def)
  have "pass items = forEach items [0..<length items] (init_state (start_time (items ! 0)))"
    using assms(1) by (cases items) (simp_all add: pass_def read_prop_def array_at_zero init_state_def)
  then have "pass items = Inl TypeError"
    unfolding u using st by simp
  then show ?thesis
    by (simp add: convertJsonToSrt_def segment_def)
qed

section \<open>Properties of the Time Formatter\<close>

subsection \<open>Decimal strings\<close>

lemma digit_char_0: "digit_char 0 = CHR ''0''"
  by (simp add: digit_char_def)

lemma string_of_nat_1: "n < 10 \<Longrightarrow> string_of_nat n = [digit_char n]"
  by (simp add: string_of_nat.simps)

lemma string_of_nat_snoc:
  "10 \<le> n \<Longrightarrow> string_of_nat n = string_of_nat (n div 10) @ [digit_char (n mod 10)]"
  by (subst string_of_nat.simps) simp

lemma div_10_again:
  "(n::nat) div 10 div 10 = n div 100" "n div 10 div 100 = n div 1000" "n div 10 div 1000 = n div 10000"
  by (simp_all add: div_mult2_eq [symmetric])

lemma string_of_nat_2:
  assumes "10 \<le> n" and "n < 100"
  shows "string_of_nat n = [digit_char (n div 10), digit_char (n mod 10)]"
proof -
  have "n div 10 < 10" using assms(2) by simp
  then show ?thesis
    by (simp add: string_of_nat_snoc [OF assms(1)] string_of_nat_1)
qed

lemma string_of_nat_3:
  assumes "100 \<le> n" and "n < 1000"
  shows "string_of_nat n = [digit_char (n div 100), digit_char (n div 10 mod 10), digit_char (n mod 10)]"
proof -
  have "10 \<le> n div 10" "n div 10 < 100" "10 \<le> n" using assms by simp_all
  then show ?thesis
    by (simp add: string_of_nat_snoc [of n] string_of_nat_2 div_10_again)
qed

lemma string_of_nat_4:
  assumes "1000 \<le> n" and "n < 10000"
  shows "string_of_nat n =
     [digit_char (n div 1000), digit_char (n div 100 mod 10), digit_char (n div 10 mod 10), digit_char (n mod 10)]"
proof -
  have "100 \<le> n div 10" "n div 10 < 1000" "10 \<le> n" using assms by simp_all
  then show ?thesis
    by (simp add: string_of_nat_snoc [of n] string_of_nat_3 div_10_again)
qed

lemma string_of_nat_5:
  assumes "10000 \<le> n" and "n < 100000"
  shows "string_of_nat n =
     [digit_char (n div 10000), digit_char (n div 1000 mod 10), digit_char (n div 100 mod 10),
      digit_char (n div 10 mod 10), digit_char (n mod 10)]"
proof -
  have "1000 \<le> n div 10" "n div 10 < 10000" "10 \<le> n" using assms by simp_all
  then show ?thesis
    by (simp add: string_of_nat_snoc [of n] string_of_nat_4 div_10_again)
qed

text \<open>The last two characters of a longer decimal string.\<close>

lemma string_of_nat_last_two:
  assumes "10 \<le> n"
  shows "\<exists>pre. string_of_nat n = pre @ [digit_char (n div 10 mod 10), digit_char (n mod 10)]"
proof (cases "n div 10 < 10")
  case True
  then show ?thesis
    by (simp add: string_of_nat_snoc [OF assms] string_of_nat_1)
next
  case False
  then have "10 \<le> n div 10" by simp
  then show ?thesis
    by (simp add: string_of_nat_snoc [OF assms] string_of_nat_snoc [of "n div 10"])
qed

lemma mod_100_digits:
  "(n::nat) mod 100 div 10 = n div 10 mod 10" "n mod 100 mod 10 = n mod 10"
proof -
  show "n mod 100 div 10 = n div 10 mod 10"
    using mod_mult2_eq [of n 10 10] by simp
  show "n mod 100 mod 10 = n mod 10"
    by (simp add: mod_mod_cancel)
qed

lemma padString_two:
  "padString (string_of_nat n) 2 = two_digits (n mod 100)"
proof (cases "n < 10")
  case True
  then show ?thesis
    by (simp add: padString_def string_of_nat_1 two_digits_def digit_char_0)
next
  case False
  then obtain pre where "string_of_nat n = pre @ [digit_char (n div 10 mod 10), digit_char (n mod 10)]"
    using string_of_nat_last_two [of n] by auto
  then show ?thesis
    by (simp add: padString_def two_digits_def mod_100_digits)
qed

lemma thousandths_digits:
  "(n::nat) div 1000 div 10 = n div 10000"
  "n mod 1000 div 100 = n div 100 mod 10"
  "n mod 1000 div 10 mod 10 = n div 10 mod 10"
  "n mod 1000 mod 10 = n mod 10"
proof -
  show "n div 1000 div 10 = n div 10000"
    by (simp add: div_mult2_eq [symmetric])
  show "n mod 1000 div 100 = n div 100 mod 10"
    using mod_mult2_eq [of n 100 10] by simp
  have "n mod 1000 div 10 = n div 10 mod 100"
    using mod_mult2_eq [of n 10 100] by simp
  then show "n mod 1000 div 10 mod 10 = n div 10 mod 10"
    by (simp add: mod_mod_cancel)
  show "n mod 1000 mod 10 = n mod 10"
    by (simp add: mod_mod_cancel)
qed

lemma replicate_zeros:
  "replicate 1 c = [c]" "replicate 2 c = [c, c]" "replicate 3 c = [c, c, c]"
  "replicate 6 c = [c, c, c, c, c, c]"
  by (simp_all add: numeral_eq_Suc)

lemma toFixed3_digits:
  assumes "0 \<le> y" and "nat \<lfloor>y * 1000 + 1 / 2\<rfloor> = n" and "y < 10 ^ 21"
  shows "toFixed3 y =
     (let m = string_of_nat n;
          m' = (if length m \<le> 3 then replicate (4 - length m) CHR ''0'' @ m else m)
      in take (length m' - 3) m' @ ''.'' @ drop (length m' - 3) m')"
  using assms by (simp add: toFixed3_def Let_def)

lemma padString_toFixed3:
  assumes "0 \<le> y" and "nat \<lfloor>y * 1000 + 1 / 2\<rfloor> = n" and "n < 100000"
  shows "padString (toFixed3 y) 6 = two_digits (n div 1000) @ ''.'' @ three_digits (n mod 1000)"
proof -
  have "y * 1000 + 1 / 2 < of_int (\<lfloor>y * 1000 + 1 / 2\<rfloor> + 1)"
    using floor_correct [of "y * 1000 + 1 / 2"] by simp
  moreover have "\<lfloor>y * 1000 + 1 / 2\<rfloor> + 1 \<le> 100000"
    using assms(2,3) by linarith
  then have "(of_int (\<lfloor>y * 1000 + 1 / 2\<rfloor> + 1) :: rat) \<le> of_int 100000"
    by (simp only: of_int_le_iff)
  ultimately have "y * 1000 < 100000"
    by simp
  then have big: "y < 10 ^ 21"
    by simp
  consider "n < 10" | "10 \<le> n" "n < 100" | "100 \<le> n" "n < 1000" | "1000 \<le> n" "n < 10000"
    | "10000 \<le> n" "n < 100000"
    using assms(3) by linarith
  then show ?thesis
  proof cases
    case 1
    then show ?thesis
      by (simp add: toFixed3_digits [OF assms(1,2) big] string_of_nat_1 padString_def
          two_digits_def three_digits_def thousandths_digits digit_char_0 replicate_zeros)
  next
    case 2
    then show ?thesis
      by (simp add: toFixed3_digits [OF assms(1,2) big] string_of_nat_2 padString_def
          two_digits_def three_digits_def thousandths_digits digit_char_0 replicate_zeros)
  next
    case 3
    then show ?thesis
      by (simp add: toFixed3_digits [OF assms(1,2) big] string_of_nat_3 padString_def
          two_digits_def three_digits_def thousandths_digits digit_char_0 replicate_zeros)
  next
    case 4
    then show ?thesis
      by (simp add: toFixed3_digits [OF assms(1,2) big] string_of_nat_4 padString_def
          two_digits_def three_digits_def thousandths_digits digit_char_0 replicate_zeros)
  next
    case 5
    then show ?thesis
      by (simp add: toFixed3_digits [OF assms(1,2) big] string_of_nat_5 padString_def
          two_digits_def three_digits_def thousandths_digits digit_char_0 replicate_zeros)
  qed
qed

subsection \<open>Hours, minutes and seconds\<close>

lemma rest_bounds:
  fixes x :: rat
  assumes "0 < q"
  shows "0 \<le> x - of_int \<lfloor>x / q\<rfloor> * q" and "x - of_int \<lfloor>x / q\<rfloor> * q < q"
proof -
  have "of_int \<lfloor>x / q\<rfloor> * q \<le> x"
    using floor_divide_lower [OF assms, of x] by simp
  then show "0 \<le> x - of_int \<lfloor>x / q\<rfloor> * q" by simp
  have "x < (of_int \<lfloor>x / q\<rfloor> + 1) * q"
    using floor_divide_upper [OF assms, of x] by simp
  then show "x - of_int \<lfloor>x / q\<rfloor> * q < q"
    by (simp add: algebra_simps)
qed

lemma nat_floor_less:
  fixes y :: rat
  assumes "y < of_nat k"
  shows "nat \<lfloor>y\<rfloor> < k \<or> k = 0"
proof -
  have "\<lfloor>y\<rfloor> < int k"
    using assms by (simp add: floor_less_iff)
  then show ?thesis by linarith
qed

lemma minutes_of_bound: "minutes_of x < 60"
proof -
  have "(x - of_int \<lfloor>x / 3600\<rfloor> * 3600) / 60 < of_nat 60"
    using rest_bounds(2) [of 3600 x] by simp
  from nat_floor_less [OF this] show ?thesis
    by (simp add: minutes_of_def)
qed

lemma millis_of_bound: "millis_of x \<le> 60000"
proof -
  define r where "r = x - of_int \<lfloor>x / 3600\<rfloor> * 3600"
  have "r - of_int \<lfloor>r / 60\<rfloor> * 60 < 60"
    using rest_bounds(2) [of 60 r] by simp
  then have "(r - of_int \<lfloor>r / 60\<rfloor> * 60) * 1000 + 1 / 2 < of_nat 60001"
    by simp
  from nat_floor_less [OF this] have "millis_of x < 60001"
    by (simp add: millis_of_def r_def Let_def)
  then show ?thesis by simp
qed

text \<open>
  Below \<open>2^52\<close> seconds the arithmetic of the Time Formatter is exact: the quotients are
  rounded, but to a number with the same integer part, and the products and differences are
  doubles.
\<close>

lemma bitlen_le_power:
  assumes "0 \<le> n" and "n < 2 ^ k"
  shows "bitlen n \<le> int k"
proof (rule ccontr)
  assume "\<not> bitlen n \<le> int k"
  then have k: "k < nat (bitlen n)" by linarith
  then have pos: "0 < n"
    using assms(1) by (cases "n = 0") simp_all
  have "(2::int) ^ Suc k \<le> 2 ^ nat (bitlen n)"
    using k by (intro power_increasing) simp_all
  also have "\<dots> \<le> 2 * n"
    by (rule bitlen_lower [OF pos])
  finally show False
    using assms(2) by simp
qed

lemma floor_js_divide:
  assumes "is_double x" and "0 \<le> x" and "0 < d" and "d < 2 ^ a" and "x / of_int d < 2 ^ b"
    and "a + b \<le> 53"
  shows "\<lfloor>js_divide x (of_int d)\<rfloor> = \<lfloor>x / of_int d\<rfloor>"
proof -
  have q0: "0 \<le> \<lfloor>x / of_int d\<rfloor>"
    using assms(2,3) by simp
  have "of_int \<lfloor>x / of_int d\<rfloor> \<le> x / of_int d"
    by simp
  also have "\<dots> < 2 ^ b"
    by (rule assms(5))
  finally have "(of_int \<lfloor>x / of_int d\<rfloor> :: rat) < of_int (2 ^ b)"
    by simp
  then have "\<lfloor>x / of_int d\<rfloor> < 2 ^ b"
    by (simp only: of_int_less_iff)
  from bitlen_le_power [OF q0 this] bitlen_le_power [OF _ assms(4)] assms(3,6)
  have "bitlen d + bitlen \<lfloor>x / of_int d\<rfloor> \<le> 53"
    by simp
  from floor_fl_divide [OF assms(1,2,3) this] show ?thesis
    by (simp add: js_divide_def)
qed

lemma js_rest:
  assumes "is_double x" and "0 \<le> x" and "x < 2 ^ 52" and "0 < d" and "h = \<lfloor>x / of_int d\<rfloor>"
  shows "js_minus x (js_times (of_int h) (of_int d)) = x - of_int h * of_int d"
    and "is_double (x - of_int h * of_int d)"
proof -
  have h0: "0 \<le> h"
    using assms(2,4,5) by simp
  have le: "of_int h * of_int d \<le> x"
    using floor_divide_lower [of "of_int d" x] assms(4,5) by simp
  then have "(of_int (h * d) :: rat) < of_int (2 ^ 52)"
    using assms(3) by simp
  then have "h * d < 2 ^ 52"
    by (simp only: of_int_less_iff)
  moreover have hd0: "0 \<le> h * d"
    using h0 assms(4) by simp
  ultimately have "\<bar>h * d\<bar> < 2 ^ 53"
    by simp
  from fl_of_int [OF this] have p: "js_times (of_int h) (of_int d) = of_int (h * d)"
    by (simp add: js_times_def)
  have "is_double (x - of_int (h * d))"
    using le assms(3) by (intro is_double_diff_int [OF assms(1) hd0]) simp_all
  then show "is_double (x - of_int h * of_int d)"
    by simp
  then show "js_minus x (js_times (of_int h) (of_int d)) = x - of_int h * of_int d"
    unfolding p by (simp add: js_minus_def is_double_def)
qed

lemma secondsToMinutes_fields:
  assumes "is_double x" and "0 \<le> x" and "x < 2 ^ 52"
  shows "secondsToMinutes x =
     two_digits (hours_of x mod 100) @ '':'' @ two_digits (minutes_of x) @ '':''
     @ two_digits (millis_of x div 1000) @ ''.'' @ three_digits (millis_of x mod 1000)"
proof -
  define h where "h = \<lfloor>x / 3600\<rfloor>"
  define r where "r = x - of_int h * 3600"
  define mi where "mi = \<lfloor>r / 60\<rfloor>"
  define sec where "sec = r - of_int mi * 60"
  have h0: "0 \<le> h"
    using assms(2) by (simp add: h_def)
  have r0: "0 \<le> r" and r1: "r < 3600"
    unfolding r_def h_def using rest_bounds [of 3600 x] by simp_all
  have mi0: "0 \<le> mi"
    using r0 by (simp add: mi_def)
  have sec0: "0 \<le> sec" and sec1: "sec < 60"
    unfolding sec_def mi_def using rest_bounds [of 60 r] by simp_all
  have "x / of_int 3600 < 2 ^ 41"
    using assms(3) by simp
  from floor_js_divide [OF assms(1,2) _ _ this, of 12]
  have jh: "\<lfloor>js_divide x 3600\<rfloor> = h"
    by (simp add: h_def)
  from js_rest [OF assms, of 3600 h]
  have jr: "js_minus x (js_times (of_int h) 3600) = r" and dr: "is_double r"
    by (simp_all add: h_def r_def)
  have r2: "r < 2 ^ 52"
    using r1 by simp
  have "r / of_int 60 < 2 ^ 6"
    using r1 by simp
  from floor_js_divide [OF dr r0 _ _ this, of 6]
  have jm: "\<lfloor>js_divide r 60\<rfloor> = mi"
    by (simp add: mi_def)
  from js_rest [OF dr r0 r2, of 60 mi]
  have js: "js_minus r (js_times (of_int mi) 60) = sec"
    by (simp_all add: mi_def sec_def)
  have "of_int h \<le> x"
    using floor_divide_lower [of 3600 x] h0 by (simp add: h_def)
  then have "(of_int h :: rat) < of_int (2 ^ 53)"
    using assms(3) by simp
  then have hb: "h < 2 ^ 53"
    by (simp only: of_int_less_iff)
  have "(of_int mi :: rat) \<le> r / 60"
    unfolding mi_def by (rule of_int_floor_le)
  then have "(of_int mi :: rat) < of_int (2 ^ 53)"
    using r1 by simp
  then have mb: "mi < 2 ^ 53"
    by (simp only: of_int_less_iff)
  have hs: "padString (string_of_int h) 2 = two_digits (hours_of x mod 100)"
    using h0 hb by (simp add: string_of_int_def string_of_magnitude_def padString_two hours_of_def h_def)
  have "minutes_of x mod 100 = minutes_of x"
    using minutes_of_bound [of x] by simp
  then have ms: "padString (string_of_int mi) 2 = two_digits (minutes_of x)"
    using mi0 mb
    by (simp add: string_of_int_def string_of_magnitude_def padString_two minutes_of_def mi_def r_def h_def)
  have n: "nat \<lfloor>sec * 1000 + 1 / 2\<rfloor> = millis_of x"
    by (simp add: millis_of_def sec_def mi_def r_def h_def Let_def)
  have ss: "padString (toFixed3 sec) 6 =
      two_digits (millis_of x div 1000) @ ''.'' @ three_digits (millis_of x mod 1000)"
    using millis_of_bound [of x] by (intro padString_toFixed3 [OF sec0 n]) simp
  have "secondsToMinutes x =
      padString (string_of_int h) 2 @ '':'' @ padString (string_of_int mi) 2 @ '':''
      @ padString (toFixed3 sec) 6"
    by (simp add: secondsToMinutes_def Let_def jh jr jm js)
  then show ?thesis
    by (simp only: hs ms ss)
qed

subsection \<open>The times of the examples\<close>

lemma secondsToMinutes_0: "secondsToMinutes 0 = ''00:00:00.000''"
proof -
  have d: "is_double 0"
    using is_double_of_int [of 0] by simp
  have v: "two_digits (hours_of 0 mod 100) @ '':'' @ two_digits (minutes_of 0) @ '':''
       @ two_digits (millis_of 0 div 1000) @ ''.'' @ three_digits (millis_of 0 mod 1000)
       = ''00:00:00.000''"
    by code_simp
  show ?thesis
    using secondsToMinutes_fields [OF d] v by simp
qed

lemma secondsToMinutes_half: "secondsToMinutes (1 / 2) = ''00:00:00.500''"
proof -
  have d: "is_double (1 / 2)"
    by (simp add: is_double_def fl_half)
  have v: "two_digits (hours_of (1 / 2) mod 100) @ '':'' @ two_digits (minutes_of (1 / 2)) @ '':''
       @ two_digits (millis_of (1 / 2) div 1000) @ ''.'' @ three_digits (millis_of (1 / 2) mod 1000)
       = ''00:00:00.500''"
    by code_simp
  show ?thesis
    using secondsToMinutes_fields [OF d] v by simp
qed

lemma secondsToMinutes_1: "secondsToMinutes 1 = ''00:00:01.000''"
proof -
  have d: "is_double 1"
    using is_double_of_int [of 1] by simp
  have v: "two_digits (hours_of 1 mod 100) @ '':'' @ two_digits (minutes_of 1) @ '':''
       @ two_digits (millis_of 1 div 1000) @ ''.'' @ three_digits (millis_of 1 mod 1000)
       = ''00:00:01.000''"
    by code_simp
  show ?thesis
    using secondsToMinutes_fields [OF d] v by simp
qed

lemma secondsToMinutes_6: "secondsToMinutes 6 = ''00:00:06.000''"
proof -
  have d: "is_double 6"
    using is_double_of_int [of 6] by simp
  have v: "two_digits (hours_of 6 mod 100) @ '':'' @ two_digits (minutes_of 6) @ '':''
       @ two_digits (millis_of 6 div 1000) @ ''.'' @ three_digits (millis_of 6 mod 1000)
       = ''00:00:06.000''"
    by code_simp
  show ?thesis
    using secondsToMinutes_fields [OF d] v by simp
qed

lemma secondsToMinutes_7: "secondsToMinutes 7 = ''00:00:07.000''"
proof -
  have d: "is_double 7"
    using is_double_of_int [of 7] by simp
  have v: "two_digits (hours_of 7 mod 100) @ '':'' @ two_digits (minutes_of 7) @ '':''
       @ two_digits (millis_of 7 div 1000) @ ''.'' @ three_digits (millis_of 7 mod 1000)
       = ''00:00:07.000''"
    by code_simp
  show ?thesis
    using secondsToMinutes_fields [OF d] v by simp
qed

lemmas time_evals = secondsToMinutes_0 secondsToMinutes_half secondsToMinutes_1
  secondsToMinutes_6 secondsToMinutes_7

lemma string_of_nat_evals:
  "string_of_nat 1 = ''1''" "string_of_nat 2 = ''2''" "string_of_nat 3 = ''3''"
  "string_of_nat (Suc 0) = ''1''" "string_of_nat (Suc (Suc 0)) = ''2''"
  by code_simp+

lemmas render_evals = render_cue_def render_last_cue_def time_evals string_of_nat_evals
section \<open>Properties of the Orchestrator\<close>

lemmas run_defs = transcribe_def before_poll_def after_poll_def and_then_def request_def
  bucketExists_def createBucket_def uploadFile_def deleteFile_def startTranscription_def
  getTranscriptionJob_def example_world_def polling_world_def example_params_def failed_job_def completed_job_def
  running_job_def Let_def read_prop_def

lemma hi_srt:
  "convertJsonToSrt [word ''hi'' 0 (1 / 2), punct ''.'' (1 / 2) (1 / 2)] =
     Inr ''1\<newline>00:00:00.000 --> 00:00:00.500\<newline>hi.\<newline>\<newline>''"
  by (simp add: eval_defs render_evals)

subsection \<open>The calls of the polling loop\<close>

lemma poll_trace:
  assumes "poll w jobName n tr job = Some y"
  shows "\<exists>k. fst y = tr @ replicate k (GetTranscriptionJob jobName)"
  using assms
proof (induction rule: poll.raw_induct [rotated 1, consumes 1])
  case (1 poll w jobName n tr job y)
  show ?case
  proof (cases job)
    case None
    with 1(2) have "fst y = tr" by auto
    then show ?thesis by (intro exI [of _ 0]) simp
  next
    case (Some j)
    show ?thesis
    proof (cases "TranscriptionJobStatus j = IN_PROGRESS")
      case False
      with 1(2) Some have "fst y = tr" by auto
      then show ?thesis by (intro exI [of _ 0]) simp
    next
      case True
      show ?thesis
      proof (cases "getTranscriptionJob_response w n")
        case (Inl e)
        with 1(2) Some True have "fst y = tr @ [GetTranscriptionJob jobName]"
          by (auto simp add: getTranscriptionJob_def)
        then show ?thesis by (intro exI [of _ 1]) simp
      next
        case (Inr job')
        with 1(2) Some True
        have "poll w jobName (Suc n) (tr @ [GetTranscriptionJob jobName]) job' = Some y"
          by (simp add: getTranscriptionJob_def)
        from 1(1) [OF this] obtain k
          where "fst y = (tr @ [GetTranscriptionJob jobName]) @ replicate k (GetTranscriptionJob jobName)"
          by blast
        then show ?thesis
          by (intro exI [of _ "Suc k"]) (simp add: replicate_app_Cons_same)
      qed
    qed
  qed
qed

subsection \<open>The calls of a run\<close>

lemma and_then_events:
  assumes "\<forall>ev \<in> set (fst m). P ev" and "\<And>a. \<forall>ev \<in> set (fst (f a)). P ev"
  shows "\<forall>ev \<in> set (fst (and_then m f)). P ev"
proof (cases m)
  case (Pair t x)
  show ?thesis
  proof (cases x)
    case (Inl e)
    with Pair assms(1) show ?thesis by (simp add: and_then_def)
  next
    case (Inr a)
    with Pair assms(1) assms(2) [of a] show ?thesis
      by (auto simp add: and_then_def split: prod.splits)
  qed
qed

lemma request_events: "P ev \<Longrightarrow> \<forall>x \<in> set (fst (request ev answer)). P x"
  by (simp add: request_def)

lemma before_poll_events:
  "\<forall>ev \<in> set (fst (before_poll w p mediaFile jobName uri)). fixed_submission ev"
  unfolding before_poll_def
  by (intro and_then_events allI)
     (simp_all add: bucketExists_def createBucket_def uploadFile_def startTranscription_def
        getTranscriptionJob_def request_def and_then_def fixed_submission_def jobParams_def
        split: option.splits)

lemma after_poll_events:
  "\<forall>ev \<in> set (fst (after_poll w p mediaFile job)). fixed_submission ev"
  unfolding after_poll_def
  by (intro and_then_events allI)
     (simp_all add: deleteFile_def request_def fixed_submission_def)

lemma poll_events:
  assumes "poll w jobName n tr job = Some y" and "\<forall>ev \<in> set tr. fixed_submission ev"
  shows "\<forall>ev \<in> set (fst y). fixed_submission ev"
proof -
  from poll_trace [OF assms(1)] obtain k where "fst y = tr @ replicate k (GetTranscriptionJob jobName)"
    by blast
  with assms(2) show ?thesis
    by (auto simp add: fixed_submission_def)
qed

lemma transcribe_events:
  assumes "transcribe w p = Some (tr, r)"
  shows "\<forall>ev \<in> set tr. fixed_submission ev"
proof -
  define mediaFile where "mediaFile = basename w (inputFile p)"
  define jobName where "jobName = ''transcribe_'' @ uuid w @ ''_'' @ mediaFile"
  define uri where "uri = ''https://s3-'' @ region w @ ''.amazonaws.com/'' @ bucketName p @ ''/'' @ mediaFile"
  obtain tr0 x where b: "before_poll w p mediaFile jobName uri = (tr0, x)"
    by (cases "before_poll w p mediaFile jobName uri")
  have e0: "\<forall>ev \<in> set tr0. fixed_submission ev"
    using before_poll_events [of w p mediaFile jobName uri] b by simp
  show ?thesis
  proof (cases x)
    case (Inl e)
    with assms b have "tr = tr0"
      by (simp add: transcribe_def Let_def mediaFile_def jobName_def uri_def)
    with e0 show ?thesis by simp
  next
    case (Inr job)
    with assms b obtain y where y: "poll w jobName 1 tr0 job = Some y"
      by (cases "poll w jobName 1 tr0 job")
         (auto simp add: transcribe_def Let_def mediaFile_def jobName_def uri_def)
    have e1: "\<forall>ev \<in> set (fst y). fixed_submission ev"
      by (rule poll_events [OF y e0])
    obtain tr1 z where yz: "y = (tr1, z)" by (cases y)
    show ?thesis
    proof (cases z)
      case (Inl e)
      with assms b Inr y yz have "tr = tr1"
        by (simp add: transcribe_def Let_def mediaFile_def jobName_def uri_def)
      with e1 yz show ?thesis by simp
    next
      case r: (Inr j)
      with assms b Inr y yz have "tr = tr1 @ fst (after_poll w p mediaFile j)"
        by (auto simp add: transcribe_def Let_def mediaFile_def jobName_def uri_def split: prod.splits)
      with e1 yz after_poll_events [of w p mediaFile j] show ?thesis by auto
    qed
  qed
qed

section \<open>The claims\<close>

subsection \<open>C1: the empty transcript\<close>

text \<open>
  Claim C1 says that for the empty item sequence \<open>convertJsonToSrt\<close> fails with an
  \<open>EmptyTranscript\<close> error. The function has no such failure: it reads
  \<open>items[0].start_time\<close> without a test, and the failure on the empty sequence is the
  runtime's \<open>TypeError\<close>, which is none of the kinds of the specification.
\<close>

theorem empty_transcript_kind_counterexample:
  "failure_kind (convertJsonToSrt []) \<noteq> Some EmptyTranscript"
  by (simp add: failure_kind_def spec_kind_def convertJsonToSrt_def segment_def pass_def
      read_prop_def array_at_def)

text \<open>
  C1 as amended: for the empty item sequence \<open>convertJsonToSrt\<close> fails, with the
  runtime's \<open>TypeError\<close> for the read of \<open>start_time\<close> on the undefined first item, and
  produces no output.
\<close>

theorem empty_transcript_throws: "convertJsonToSrt [] = Inl TypeError \<and> segment [] = Inl TypeError"
  by (simp add: convertJsonToSrt_def segment_def pass_def read_prop_def array_at_def)

subsection \<open>C2: punctuation closes the caption\<close>



subsection \<open>C3: the five-second threshold\<close>



subsection \<open>C4: the trailing caption\<close>

text \<open>
  Claim C4: when the pass succeeds and leaves words in the buffer, exactly one more caption
  follows those of the pass; it starts at the running start and ends at the end time of the
  last item if that item is not punctuation, else at that of the item before it. Its text is
  the buffer. The output of the conversion is the output of the pass followed by the number
  of that caption, its two times and its text, with no line break after the text.
\<close>

theorem trailing_cue:
  assumes "pass items = Inr s" and "nextline s \<noteq> []"
  shows "map_sum id cues (segment items) =
           Inr (cues s @ [\<lparr>cue_index = subtitleIndex s, cue_start = current_start s,
                  cue_end = (if type (last items) \<noteq> punctuation then end_time (last items)
                             else end_time (items ! (length items - 2))),
                  cue_text = nextline s\<rparr>])
       \<and> convertJsonToSrt items =
           Inr (convertedOutput s @ string_of_nat (subtitleIndex s) @ [CHR 0x0A]
                @ secondsToMinutes (current_start s) @ '' --> ''
                @ secondsToMinutes (if type (last items) \<noteq> punctuation then end_time (last items)
                                    else end_time (items ! (length items - 2)))
                @ [CHR 0x0A] @ nextline s)"
proof -
  have ne: "items \<noteq> []" by (rule pass_nonempty(1) [OF assms(1)])
  have np: "type (last items) \<noteq> punctuation"
    using pass_ends_on_punctuation [OF assms(1)] assms(2) by blast
  show ?thesis
    using assms np
    by (simp add: segment_def convertJsonToSrt_def finish_not_punctuation [OF ne np] render_last_cue_def)
qed

text \<open>
  The pass over \<open>[word("a", 0, 1), word("b", 6, 7)]\<close> writes the first caption and leaves
  \<open>b\<close> in the buffer; the second caption ends the output.
\<close>

theorem trailing_cue_witness:
  "pass [word ''a'' 0 1, word ''b'' 6 7] =
     Inr \<lparr>convertedOutput = ''1\<newline>00:00:00.000 --> 00:00:01.000\<newline>a \<newline>\<newline>'',
          subtitleIndex = 2, current_start = 6, nextline = ''b '',
          cues = [\<lparr>cue_index = 1, cue_start = 0, cue_end = 1, cue_text = ''a ''\<rparr>]\<rparr>
   \<and> ''b '' \<noteq> []
   \<and> map_sum id cues (segment [word ''a'' 0 1, word ''b'' 6 7]) =
        Inr [\<lparr>cue_index = 1, cue_start = 0, cue_end = 1, cue_text = ''a ''\<rparr>,
             \<lparr>cue_index = 2, cue_start = 6, cue_end = 7, cue_text = ''b ''\<rparr>]
   \<and> convertJsonToSrt [word ''a'' 0 1, word ''b'' 6 7] =
        Inr ''1\<newline>00:00:00.000 --> 00:00:01.000\<newline>a \<newline>\<newline>2\<newline>00:00:06.000 --> 00:00:07.000\<newline>b ''"
proof -
  have p: "pass [word ''a'' 0 1, word ''b'' 6 7] =
     Inr \<lparr>convertedOutput = ''1\<newline>00:00:00.000 --> 00:00:01.000\<newline>a \<newline>\<newline>'',
          subtitleIndex = 2, current_start = 6, nextline = ''b '',
          cues = [\<lparr>cue_index = 1, cue_start = 0, cue_end = 1, cue_text = ''a ''\<rparr>]\<rparr>"
    by (simp add: eval_defs render_evals)
  show ?thesis
    using trailing_cue [OF p] p by (simp add: word_def time_evals string_of_nat_evals)
qed

subsection \<open>C5: order and numbering of the captions\<close>



subsection \<open>C6: the format of a time\<close>




subsection \<open>C7: a failed job\<close>

text \<open>
  Claim C7 says that a run whose job ends as \<open>FAILED\<close> aborts with an error that carries
  the failure reason, and neither fetches nor converts a result. \<open>transcribe\<close> leaves the
  loop on every status other than \<open>IN_PROGRESS\<close> and goes on (the source marks the missing
  case with a \<open>TODO\<close>). With no transcript in the failed job the run ends in the runtime's
  \<open>TypeError\<close> for \<open>transcript.TranscriptFileUri\<close>, and the reason is lost; with a
  transcript it fetches, converts and writes the output file.
\<close>

theorem failed_job_not_reported:
  "transcribe (example_world True (failed_job None) []) example_params =
     Some ([ListBuckets, ExistsSync ''/talk.wav'', CreateReadStream ''/talk.wav'',
            Upload ''b'' ''talk.wav'',
            StartTranscriptionJob (jobParams ''transcribe_u1_talk.wav''
               ''https://s3-us-east-1.amazonaws.com/b/talk.wav''),
            GetTranscriptionJob ''transcribe_u1_talk.wav''],
           Inl TypeError)
   \<and> transcribe (example_world True
          (failed_job (Some \<lparr>TranscriptFileUri = Some ''https://result''\<rparr>))
          [word ''hi'' 0 (1 / 2), punct ''.'' (1 / 2) (1 / 2)]) example_params =
     Some ([ListBuckets, ExistsSync ''/talk.wav'', CreateReadStream ''/talk.wav'',
            Upload ''b'' ''talk.wav'',
            StartTranscriptionJob (jobParams ''transcribe_u1_talk.wav''
               ''https://s3-us-east-1.amazonaws.com/b/talk.wav''),
            GetTranscriptionJob ''transcribe_u1_talk.wav'',
            HttpGet (Some ''https://result''),
            WriteFile ''/talk.srt'' ''1\<newline>00:00:00.000 --> 00:00:00.500\<newline>hi.\<newline>\<newline>''],
           Inr ())"
  by (simp add: run_defs poll.simps hi_srt)

subsection \<open>C8: a missing input file\<close>

text \<open>
  Claim C8 says that no request over the network is made in a run whose input file is
  missing. The test for the file is the first statement of \<open>uploadFile\<close>, which
  \<open>transcribe\<close> calls after the bucket check: the buckets have been listed by then.
\<close>

theorem missing_file_after_bucket_check_counterexample:
  "transcribe (example_world False completed_job []) example_params =
     Some ([ListBuckets, ExistsSync ''/talk.wav''], Inl (Error ''/talk.wav does not exist''))
   \<and> is_network ListBuckets"
  by (simp add: run_defs)

text \<open>
  C8 as amended: a run whose input file is missing fails, and the only requests over the
  network it makes are the listing of the buckets and, when the bucket is not listed, its
  creation: the test comes before the upload and before every request to the transcription
  service. When the listing and the creation, if any, succeed, the failure is the program's
  error \<open><file> does not exist\<close>, raised right after the test.
\<close>

theorem missing_file_aborts_before_upload:
  assumes "\<not> fs_existsSync w (inputFile p)"
  shows "\<exists>tr e. transcribe w p = Some (tr, Inl e)
    \<and> (\<forall>ev \<in> set tr. is_network ev \<longrightarrow> ev = ListBuckets \<or> ev = CreateBucket (bucketName p))
    \<and> ((\<exists>bs. s3_listBuckets w = Inr bs
            \<and> (Some (bucketName p) \<in> set (case bs of Some l \<Rightarrow> l | None \<Rightarrow> [])
                \<or> s3_createBucket w = None))
         \<longrightarrow> e = Error (inputFile p @ '' does not exist'')
             \<and> spec_kind e = Some FileNotFound
             \<and> last tr = ExistsSync (inputFile p))"
proof (cases "s3_listBuckets w")
  case (Inl e)
  then show ?thesis
    by (simp add: transcribe_def before_poll_def bucketExists_def and_then_def Let_def)
next
  case (Inr bs)
  show ?thesis
  proof (cases "Some (bucketName p) \<in> set (case bs of Some l \<Rightarrow> l | None \<Rightarrow> [])")
    case True
    with Inr assms show ?thesis
      by (simp add: transcribe_def before_poll_def bucketExists_def uploadFile_def and_then_def
          Let_def spec_kind_def)
  next
    case False
    with Inr assms show ?thesis
      by (cases "s3_createBucket w")
         (simp_all add: transcribe_def before_poll_def bucketExists_def createBucket_def
           uploadFile_def request_def and_then_def Let_def spec_kind_def)
  qed
qed

text \<open>
  The run on the missing \<open>/talk.wav\<close>.
\<close>

theorem missing_file_aborts_before_upload_witness:
  "\<not> fs_existsSync (example_world False completed_job []) (inputFile example_params)
   \<and> (\<exists>tr e. transcribe (example_world False completed_job []) example_params
          = Some (tr, Inl e)
        \<and> e = Error ''/talk.wav does not exist''
        \<and> last tr = ExistsSync ''/talk.wav'')"
proof -
  have h: "\<not> fs_existsSync (example_world False completed_job []) (inputFile example_params)"
    by (simp add: example_world_def)
  from missing_file_aborts_before_upload [OF h] show ?thesis
    using h by (auto simp add: example_world_def example_params_def)
qed

subsection \<open>C9: the parameters of the submitted job\<close>

text \<open>
  Claim C9 says that the media format of the submission is derived from the uploaded
  file. \<open>startTranscription\<close> takes the job name and the URI only, and its
  \<open>MediaFormat\<close> is the literal \<open>mp4\<close>: the run on \<open>/talk.wav\<close> submits \<open>mp4\<close>, as a
  run on \<open>talk.mp4\<close> would.
\<close>

theorem wav_submitted_as_mp4_counterexample:
  "transcribe (example_world True completed_job
       [word ''hi'' 0 (1 / 2), punct ''.'' (1 / 2) (1 / 2)]) example_params =
     Some ([ListBuckets, ExistsSync ''/talk.wav'', CreateReadStream ''/talk.wav'',
            Upload ''b'' ''talk.wav'',
            StartTranscriptionJob
              \<lparr>TranscriptionJobName = ''transcribe_u1_talk.wav'', LanguageCode = ''en-US'',
               MediaFormat = ''mp4'',
               MediaFileUri = ''https://s3-us-east-1.amazonaws.com/b/talk.wav''\<rparr>,
            GetTranscriptionJob ''transcribe_u1_talk.wav'',
            HttpGet (Some ''https://result''),
            WriteFile ''/talk.srt'' ''1\<newline>00:00:00.000 --> 00:00:00.500\<newline>hi.\<newline>\<newline>''],
           Inr ())
   \<and> MediaFormat (jobParams ''transcribe_u1_talk.wav'' ''https://s3-us-east-1.amazonaws.com/b/talk.wav'')
     = MediaFormat (jobParams ''transcribe_u1_talk.mp4'' ''https://s3-us-east-1.amazonaws.com/b/talk.mp4'')"
  by (simp add: run_defs poll.simps hi_srt jobParams_def)

text \<open>
  C9 as amended: in every run, a job is submitted with the language code \<open>en-US\<close> and the
  media format \<open>mp4\<close>, whatever the input file. This holds of the calls made before the
  polling loop, which every run makes, and of all the calls of a run that returns.
\<close>

theorem submission_fixed_language_and_format:
  "(StartTranscriptionJob jp \<in> set (fst (before_poll w p mediaFile jobName uri))
      \<longrightarrow> LanguageCode jp = ''en-US'' \<and> MediaFormat jp = ''mp4'')
   \<and> (transcribe w p = Some (tr, r) \<and> StartTranscriptionJob jp \<in> set tr
      \<longrightarrow> LanguageCode jp = ''en-US'' \<and> MediaFormat jp = ''mp4'')"
proof -
  have early: "StartTranscriptionJob jp \<in> set (fst (before_poll w p mediaFile jobName uri))
      \<longrightarrow> LanguageCode jp = ''en-US'' \<and> MediaFormat jp = ''mp4''"
  proof
    assume "StartTranscriptionJob jp \<in> set (fst (before_poll w p mediaFile jobName uri))"
    then have "fixed_submission (StartTranscriptionJob jp)"
      using before_poll_events [of w p mediaFile jobName uri] by blast
    then show "LanguageCode jp = ''en-US'' \<and> MediaFormat jp = ''mp4''"
      by (simp add: fixed_submission_def)
  qed
  have whole: "transcribe w p = Some (tr, r) \<and> StartTranscriptionJob jp \<in> set tr
      \<longrightarrow> LanguageCode jp = ''en-US'' \<and> MediaFormat jp = ''mp4''"
  proof
    assume "transcribe w p = Some (tr, r) \<and> StartTranscriptionJob jp \<in> set tr"
    then have "fixed_submission (StartTranscriptionJob jp)"
      using transcribe_events [of w p tr r] by blast
    then show "LanguageCode jp = ''en-US'' \<and> MediaFormat jp = ''mp4''"
      by (simp add: fixed_submission_def)
  qed
  from early whole show ?thesis by (rule conjI)
qed

text \<open>
  A run on \<open>/talk.wav\<close> that polls three times; the fetched transcript is empty, so the
  conversion throws.
\<close>

theorem submission_fixed_language_and_format_witness:
  "StartTranscriptionJob (jobParams ''transcribe_u1_talk.wav'' ''https://s3-us-east-1.amazonaws.com/b/talk.wav'')
     \<in> set (fst (before_poll (polling_world []) example_params ''talk.wav'' ''transcribe_u1_talk.wav''
                ''https://s3-us-east-1.amazonaws.com/b/talk.wav''))
   \<and> transcribe (polling_world []) example_params =
     Some ([ListBuckets, ExistsSync ''/talk.wav'', CreateReadStream ''/talk.wav'',
            Upload ''b'' ''talk.wav'',
            StartTranscriptionJob (jobParams ''transcribe_u1_talk.wav''
               ''https://s3-us-east-1.amazonaws.com/b/talk.wav''),
            GetTranscriptionJob ''transcribe_u1_talk.wav'',
            GetTranscriptionJob ''transcribe_u1_talk.wav'',
            GetTranscriptionJob ''transcribe_u1_talk.wav'',
            HttpGet (Some ''https://result'')],
           Inl TypeError)
   \<and> LanguageCode (jobParams ''transcribe_u1_talk.wav'' ''https://s3-us-east-1.amazonaws.com/b/talk.wav'') = ''en-US''
   \<and> MediaFormat (jobParams ''transcribe_u1_talk.wav'' ''https://s3-us-east-1.amazonaws.com/b/talk.wav'') = ''mp4''"
proof -
  have b: "StartTranscriptionJob (jobParams ''transcribe_u1_talk.wav'' ''https://s3-us-east-1.amazonaws.com/b/talk.wav'')
     \<in> set (fst (before_poll (polling_world []) example_params ''talk.wav'' ''transcribe_u1_talk.wav''
                ''https://s3-us-east-1.amazonaws.com/b/talk.wav''))"
    by (simp add: run_defs)
  have t: "transcribe (polling_world []) example_params =
     Some ([ListBuckets, ExistsSync ''/talk.wav'', CreateReadStream ''/talk.wav'',
            Upload ''b'' ''talk.wav'',
            StartTranscriptionJob (jobParams ''transcribe_u1_talk.wav''
               ''https://s3-us-east-1.amazonaws.com/b/talk.wav''),
            GetTranscriptionJob ''transcribe_u1_talk.wav'',
            GetTranscriptionJob ''transcribe_u1_talk.wav'',
            GetTranscriptionJob ''transcribe_u1_talk.wav'',
            HttpGet (Some ''https://result'')],
           Inl TypeError)"
    by (simp add: run_defs poll.simps convertJsonToSrt_def segment_def pass_def array_at_def)
  have "LanguageCode (jobParams ''transcribe_u1_talk.wav'' ''https://s3-us-east-1.amazonaws.com/b/talk.wav'') = ''en-US''
   \<and> MediaFormat (jobParams ''transcribe_u1_talk.wav'' ''https://s3-us-east-1.amazonaws.com/b/talk.wav'') = ''mp4''"
    using submission_fixed_language_and_format
      [of "jobParams ''transcribe_u1_talk.wav'' ''https://s3-us-east-1.amazonaws.com/b/talk.wav''"
          "polling_world []" example_params "''talk.wav''" "''transcribe_u1_talk.wav''"
          "''https://s3-us-east-1.amazonaws.com/b/talk.wav''"] b
    by blast
  with b t show ?thesis by simp
qed

subsection \<open>C10: punctuation as the first item\<close>

text \<open>
  Claim C10 says that closing the caption at position 0 is guarded. The callback guards the
  read of the following item (\<open>if (nextItem)\<close>) but not that of \<open>items[index - 1]\<close>: for
  the one-item transcript \<open>[punctuation(".", 0, 0)]\<close> the read of \<open>end_time\<close> on the
  undefined \<open>items[-1]\<close> throws, and no caption is produced.
\<close>

theorem first_punctuation_throws: "convertJsonToSrt [punct ''.'' 0 0] = Inl TypeError"
  by (simp add: eval_defs)

end
